theory Spec2Isabelle
  imports Complex_Main "HOL-Library.AList"
begin

section \<open>Segmentation planner (MediaInfo.convertToSegments)\<close>

text \<open>
  The source computes on IEEE doubles; the model computes on the reals, so rounding,
  NaN and Infinity are not represented. The two computations take the same branches and
  give the same breakpoints wherever the differences, the piece lengths and the sums are
  doubles and the quotient under \<^verbatim>\<open>Math.ceil\<close> is not rounded to another integer part; this is
  so at every input evaluated below (breakpoints that are small multiples of \<open>1/4\<close>). At other
  inputs a rounded difference or sum may fall on the other side of a comparison, so nothing
  is stated here about them. One consequence of the missing Infinity is written out: with
  \<open>segmentLength = 0\<close> and a positive gap the source computes \<^verbatim>\<open>Math.ceil(Infinity)\<close> and its
  inner loop never ends, which the model reports as \<open>None\<close>.
\<close>

text \<open>The inner loop \<^verbatim>\<open>for (let i = 1; i < numOfSegmentsNeeded; i++)\<close>: each round adds
  \<open>durationOfEach\<close> to \<open>lastTime\<close> and pushes it. The first argument is the number of rounds.\<close>

fun pushEvenly :: "nat \<Rightarrow> real \<Rightarrow> real \<Rightarrow> real list" where
  "pushEvenly 0 lastTime durationOfEach = []"
| "pushEvenly (Suc n) lastTime durationOfEach =
     (lastTime + durationOfEach) # pushEvenly n (lastTime + durationOfEach) durationOfEach"

text \<open>One round of the loop over \<open>timeList\<close>; the state is \<open>(lastTime, segmentStartTimes)\<close>.\<close>

definition segmentStep :: "real \<Rightarrow> real \<Rightarrow> (real \<times> real list) option \<Rightarrow> real \<Rightarrow> (real \<times> real list) option" where
  "segmentStep segmentLength segmentOffset st time =
     (case st of
        None \<Rightarrow> None
      | Some (lastTime, segmentStartTimes) \<Rightarrow>
          let minSegmentLength = segmentLength - segmentOffset;
              maxSegmentLength = segmentLength + segmentOffset
          in if time - lastTime < minSegmentLength then Some (lastTime, segmentStartTimes)
             else if time - lastTime < maxSegmentLength then Some (time, segmentStartTimes @ [time])
             else if segmentLength = 0 \<and> time - lastTime > 0 then None
             else
               let numOfSegmentsNeeded = \<lceil>(time - lastTime) / segmentLength\<rceil>;
                   durationOfEach = (time - lastTime) / real_of_int numOfSegmentsNeeded
               in Some (time,
                    segmentStartTimes
                      @ pushEvenly (nat (numOfSegmentsNeeded - 1)) lastTime durationOfEach
                      @ [time]))"

definition convertToSegments :: "real list \<Rightarrow> real \<Rightarrow> real \<Rightarrow> real \<Rightarrow> real list option" where
  "convertToSegments rawTimeList duration segmentLength segmentOffset =
     (let maxSegmentLength = segmentLength + segmentOffset;
          timeList = rawTimeList @ [duration]
      in case foldl (segmentStep segmentLength segmentOffset) (Some (0, [0])) timeList of
           None \<Rightarrow> None
         | Some (lastTime, segmentStartTimes) \<Rightarrow>
             Some ((if length segmentStartTimes > 1
                    then (let popped = butlast segmentStartTimes;
                              lastSegmentLength = duration - last popped
                          in if lastSegmentLength > maxSegmentLength
                             then popped @ [duration - lastSegmentLength / 2]
                             else popped)
                    else segmentStartTimes) @ [duration]))"

text \<open>The default arguments \<^verbatim>\<open>segmentLength = 3.5, segmentOffset = 1.25\<close>.\<close>

definition convertToSegments_default :: "real list \<Rightarrow> real \<Rightarrow> real list option" where
  "convertToSegments_default rawTimeList duration = convertToSegments rawTimeList duration 3.5 1.25"

text \<open>The number of consecutive differences of \<open>b\<close> that fall outside \<open>[L - O, L + O]\<close>.\<close>

definition gapsOutOfTolerance :: "real \<Rightarrow> real \<Rightarrow> real list \<Rightarrow> nat" where
  "gapsOutOfTolerance segmentLength segmentOffset b =
     length (filter (\<lambda>(x, y). \<not> (segmentLength - segmentOffset \<le> y - x \<and> y - x \<le> segmentLength + segmentOffset))
              (zip b (tl b)))"

section \<open>JavaScript values\<close>

text \<open>Exceptions are values: a function that can throw returns \<open>jserror + 'a\<close>, paired with the
  state it leaves behind where it has mutated something before throwing.\<close>

datatype jserror = AssertionError string | TypeError string | Error string

text \<open>\<^verbatim>\<open>Number.prototype.toString()\<close> on an integer-valued number: its decimal digits.\<close>

definition digitChar :: "nat \<Rightarrow> char" where
  "digitChar d = ''0123456789'' ! d"

fun decimal :: "nat \<Rightarrow> string" where
  "decimal n = (if n < 10 then [digitChar n] else decimal (n div 10) @ [digitChar (n mod 10)])"

declare decimal.simps [simp del]

text \<open>The decimal digits of \<open>n\<close> in a field of exactly \<open>k\<close> digits, padded with zeros on the left
  (the last \<open>k\<close> digits if there are more).\<close>

fun fixedWidth :: "nat \<Rightarrow> nat \<Rightarrow> string" where
  "fixedWidth 0 n = []"
| "fixedWidth (Suc k) n = fixedWidth k (n div 10) @ [digitChar (n mod 10)]"

definition Number_toString :: "int \<Rightarrow> string" where
  "Number_toString n = (if n < 0 then CHR ''-'' # decimal (nat (- n)) else decimal (nat n))"

text \<open>The remainder operator \<^verbatim>\<open>%\<close> on integers: the result has the sign of the dividend.\<close>

definition js_rem :: "int \<Rightarrow> int \<Rightarrow> int" where
  "js_rem a b = sgn a * (\<bar>a\<bar> mod \<bar>b\<bar>)"

text \<open>\<^verbatim>\<open>parseInt(s, 16)\<close>: leading white space, an optional sign, an optional \<^verbatim>\<open>0x\<close>, then the
  longest run of hexadecimal digits; \<open>None\<close> is NaN. (Values beyond \<open>2^53\<close> are not rounded.)
  A \<open>char\<close> is a code unit below 256; the white space of JavaScript among these is the
  seven characters of \<open>isWhiteSpace\<close>.\<close>

definition isWhiteSpace :: "char \<Rightarrow> bool" where
  "isWhiteSpace c \<longleftrightarrow> c \<in> set [CHR '' '', CHR 0x09, CHR 0x0A, CHR 0x0B, CHR 0x0C, CHR 0x0D, CHR 0xA0]"

definition hexDigitValue :: "char \<Rightarrow> nat option" where
  "hexDigitValue c =
     (let n = (of_char c :: nat)
      in if 48 \<le> n \<and> n \<le> 57 then Some (n - 48)
         else if 97 \<le> n \<and> n \<le> 102 then Some (n - 87)
         else if 65 \<le> n \<and> n \<le> 70 then Some (n - 55)
         else None)"

definition hexValue :: "string \<Rightarrow> int" where
  "hexValue ds = foldl (\<lambda>a c. 16 * a + int (case hexDigitValue c of Some v \<Rightarrow> v | None \<Rightarrow> 0)) 0 ds"

definition parseInt16 :: "string \<Rightarrow> int option" where
  "parseInt16 s =
     (let s1 = dropWhile isWhiteSpace s;
          (sign, s2) = (case s1 of
                          c # r \<Rightarrow> if c = CHR ''-'' then (- 1, r) else if c = CHR ''+'' then (1, r) else (1, s1)
                        | [] \<Rightarrow> (1, s1));
          s3 = (case s2 of
                  z # x # r \<Rightarrow> if z = CHR ''0'' \<and> (x = CHR ''x'' \<or> x = CHR ''X'') then r else s2
                | _ \<Rightarrow> s2);
          ds = takeWhile (\<lambda>c. hexDigitValue c \<noteq> None) s3
      in if ds = [] then None else Some (sign * hexValue ds))"

section \<open>Quality backend (MediaBackend)\<close>

record QualityLevelPreset =
  name :: string
  resolution :: "real option"  \<comment> \<open>\<open>None\<close> is the NaN of the audio preset\<close>
  videoBitrate :: int
  audioBitrate :: int

definition EMPTY :: nat where "EMPTY = 0"
definition DONE :: nat where "DONE = 255"

record TranscoderStatus =
  enc_head :: nat
  enc_id :: nat

record ClientStatus =
  head :: int
  transcoder :: "nat option"  \<comment> \<open>the encoder process the client is attached to, if any\<close>
  deleted :: bool             \<comment> \<open>an absent \<^verbatim>\<open>deleted\<close> is falsy\<close>

text \<open>
  A JavaScript \<^verbatim>\<open>Map\<close> keeps insertion order: it is an association list, read with
  \<open>map_of\<close>, written with \<open>AList.update\<close> (in place when the key is present, at the end
  otherwise) and \<open>AList.delete\<close>. Encoder processes are named by the order of their spawning.
  The \<^verbatim>\<open>Uint8Array\<close> \<open>segmentStatus\<close> is a list of numbers below 256; a store reduces modulo 256.
\<close>

record MediaBackend =
  preset :: QualityLevelPreset
  relPath :: string
  outDir :: string
  breakpoints :: "real list"
  segmentStatus :: "nat list"
  encoderHeads :: "(nat \<times> TranscoderStatus) list"
  clients :: "(string \<times> ClientStatus) list"
  lastAssignedId :: nat
  spawned :: nat  \<comment> \<open>how many ffmpeg processes this backend has started\<close>

text \<open>The constructor: every segment starts \<open>EMPTY\<close>.\<close>

definition new_MediaBackend :: "QualityLevelPreset \<Rightarrow> real list \<Rightarrow> string \<Rightarrow> string \<Rightarrow> MediaBackend" where
  "new_MediaBackend p bps rel out =
     \<lparr>preset = p, relPath = rel, outDir = out, breakpoints = bps,
      segmentStatus = replicate (length bps - 1) EMPTY, encoderHeads = [], clients = [],
      lastAssignedId = 1, spawned = 0\<rparr>"

text \<open>Reading the typed array: \<open>None\<close> is the \<^verbatim>\<open>undefined\<close> of an index out of range.\<close>

definition segmentStatusAt :: "MediaBackend \<Rightarrow> nat \<Rightarrow> nat option" where
  "segmentStatusAt b i = (if i < length (segmentStatus b) then Some (segmentStatus b ! i) else None)"

definition idAttempts :: "nat \<Rightarrow> nat list" where
  "idAttempts lastId = map (\<lambda>i. nat (js_rem (int lastId + i) 252 + 2)) [- 1 .. 250]"

definition findNextAvailableId :: "MediaBackend \<Rightarrow> jserror + (nat \<times> MediaBackend)" where
  "findNextAvailableId b =
     (case find (\<lambda>attempt. \<not> list_ex (\<lambda>id. id = attempt) (segmentStatus b)
                          \<and> \<not> list_ex (\<lambda>encoder. enc_id encoder = attempt) (map snd (encoderHeads b)))
             (idAttempts (lastAssignedId b)) of
        Some attempt \<Rightarrow> Inr (attempt, b\<lparr>lastAssignedId := attempt\<rparr>)
      | None \<Rightarrow> Inl (Error ''No available Uint8 value.''))"

text \<open>The end of the range an encoder started at \<open>startAt\<close> is asked to produce.\<close>

definition startTranscode_endAt :: "MediaBackend \<Rightarrow> nat \<Rightarrow> nat" where
  "startTranscode_endAt b startAt =
     (let endAt = min (length (breakpoints b) - 1) (startAt + 512)
      in case find (\<lambda>i. segmentStatusAt b i \<noteq> Some EMPTY) [startAt + 1 ..< length (breakpoints b) - 1] of
           Some i \<Rightarrow> i
         | None \<Rightarrow> endAt)"

text \<open>The arguments of the ffmpeg invocation that depend on the range.\<close>

record ffmpegArgs =
  arg_ss :: "real option"
  arg_to :: real
  arg_segment_times :: "real list"
  arg_segment_start_number :: nat
  arg_output :: string

text \<open>\<open>startTranscode\<close> returns the new process and its arguments. The process is spawned
  before the encoder id is looked for, so a failure there leaves a process behind.\<close>

definition startTranscode :: "MediaBackend \<Rightarrow> nat \<Rightarrow> (jserror + nat \<times> ffmpegArgs) \<times> MediaBackend" where
  "startTranscode b startAt =
     (if \<not> startAt < length (breakpoints b) - 1 then (Inl (AssertionError ''Starting point wrong.''), b)
      else if segmentStatusAt b startAt \<noteq> Some EMPTY
      then (Inl (AssertionError (''Segment '' @ Number_toString (int startAt) @ '' already being encoded (''
                                   @ (case segmentStatusAt b startAt of
                                        Some status \<Rightarrow> Number_toString (int status)
                                      | None \<Rightarrow> ''undefined'')
                                   @ '').'')), b)
      else
        let endAt = startTranscode_endAt b startAt;
            args = \<lparr>arg_ss = (if startAt \<noteq> 0 then Some (breakpoints b ! startAt) else None),
                    arg_to = breakpoints b ! endAt,
                    arg_segment_times = drop (startAt + 1) (take endAt (breakpoints b)),
                    arg_segment_start_number = startAt,
                    arg_output = name (preset b) @ ''-%05d.ts''\<rparr>;
            transcoder = spawned b;
            b1 = b\<lparr>spawned := Suc (spawned b)\<rparr>
        in case findNextAvailableId b1 of
             Inl e \<Rightarrow> (Inl e, b1)
           | Inr (encoderId, b2) \<Rightarrow>
               (Inr (transcoder, args),
                b2\<lparr>segmentStatus := (segmentStatus b2)[startAt := encoderId mod 256],
                   encoderHeads := AList.update transcoder \<lparr>enc_head = startAt, enc_id = encoderId\<rparr> (encoderHeads b2)\<rparr>))"

text \<open>The name ffmpeg's segment muxer gives to segment \<open>i\<close> under the output pattern
  \<^verbatim>\<open><preset>-%05d.ts\<close>: C's \<^verbatim>\<open>%05d\<close> pads the decimal number with zeros to at least five digits.\<close>

definition printf_05d :: "nat \<Rightarrow> string" where
  "printf_05d i = replicate (5 - length (decimal i)) CHR ''0'' @ decimal i"

definition ffmpegSegmentName :: "string \<Rightarrow> nat \<Rightarrow> string" where
  "ffmpegSegmentName presetName i = presetName @ ''-'' @ printf_05d i @ ''.ts''"

text \<open>The name \<open>getSegment\<close> computes:
  \<^verbatim>\<open>`${name}-${((segmentIndex + 1e5) % 1e6).toString().substr(1)}.ts`\<close>.\<close>

definition segmentFileName :: "string \<Rightarrow> nat \<Rightarrow> string" where
  "segmentFileName presetName segmentIndex =
     presetName @ ''-'' @ drop 1 (decimal ((segmentIndex + 100000) mod 1000000)) @ ''.ts''"

text \<open>
  \<open>getSegment\<close> up to its first \<^verbatim>\<open>await\<close>. It answers 409, throws (the route answers 500), or goes
  on with the computed file name and whether the segment was ready: after the recalculation
  it has asked for, the file is sent at once when ready, and otherwise once the encoder
  reports the segment (or 500 when the encoder dies).
\<close>

datatype segmentReply = SendStatus nat | Proceed string bool

definition getSegment_serve :: "MediaBackend \<Rightarrow> string \<Rightarrow> ClientStatus \<Rightarrow> string \<Rightarrow> (jserror + segmentReply) \<times> MediaBackend" where
  "getSegment_serve b clientId clientInfo segmentNumber =
     (case parseInt16 segmentNumber of
        None \<Rightarrow> (Inl (AssertionError ''Segment index out of range.''), b)
      | Some n \<Rightarrow>
          let segmentIndex = n - 1
          in if \<not> (segmentIndex \<ge> 0 \<and> segmentIndex < int (length (breakpoints b)) - 1)
             then (Inl (AssertionError ''Segment index out of range.''), b)
             else
               let fileName = segmentFileName (name (preset b)) (nat segmentIndex);
                   fileReady = (segmentStatusAt b (nat segmentIndex) = Some DONE)
               in (Inr (Proceed fileName fileReady),
                   b\<lparr>clients := AList.update clientId (clientInfo\<lparr>head := segmentIndex\<rparr>) (clients b)\<rparr>))"

definition getSegment :: "MediaBackend \<Rightarrow> string \<Rightarrow> string \<Rightarrow> (jserror + segmentReply) \<times> MediaBackend" where
  "getSegment b clientId segmentNumber =
     (case map_of (clients b) clientId of
        None \<Rightarrow>
          let clientInfo = \<lparr>head = - 1, transcoder = None, deleted = False\<rparr>
          in getSegment_serve (b\<lparr>clients := AList.update clientId clientInfo (clients b)\<rparr>)
               clientId clientInfo segmentNumber
      | Some clientInfo \<Rightarrow>
          if deleted clientInfo then (Inr (SendStatus 409), b)
          else getSegment_serve b clientId clientInfo segmentNumber)"

text \<open>\<open>removeClient\<close> up to its \<^verbatim>\<open>await\<close>; the flag says whether it goes on to recalculate and to
  arm the timer that, a second later, runs \<open>removeClient_expire\<close>.\<close>

definition removeClient :: "MediaBackend \<Rightarrow> string \<Rightarrow> bool \<times> MediaBackend" where
  "removeClient b clientId =
     (case map_of (clients b) clientId of
        Some status \<Rightarrow>
          if deleted status then (False, b)
          else (True, b\<lparr>clients := AList.update clientId (status\<lparr>deleted := True\<rparr>) (clients b)\<rparr>)
      | None \<Rightarrow>
          (True, b\<lparr>clients := AList.update clientId \<lparr>head = - 1, transcoder = None, deleted = True\<rparr> (clients b)\<rparr>))"

definition removeClient_expire :: "MediaBackend \<Rightarrow> string \<Rightarrow> MediaBackend" where
  "removeClient_expire b clientId = b\<lparr>clients := AList.delete clientId (clients b)\<rparr>"

text \<open>A backend of a half-hour video cut into 600 segments of three seconds, of which a client
  that started far into the video has left segment 550 encoded and everything else empty.\<close>

definition longVideoBackend :: MediaBackend where
  "longVideoBackend =
     (new_MediaBackend \<lparr>name = ''720p'', resolution = Some 720, videoBitrate = 4800, audioBitrate = 160\<rparr>
        (map (\<lambda>i. 3 * real i) [0 ..< 601]) ''long.mp4'' ''/cache/long'')
       \<lparr>segmentStatus := (replicate 600 EMPTY)[550 := DONE]\<rparr>"

section \<open>Media descriptors (VideoInfo, AudioInfo)\<close>

record QualityLevel =
  level_preset :: QualityLevelPreset
  width :: int
  height :: int
  backend :: "MediaBackend option"  \<comment> \<open>\<open>None\<close> is \<^verbatim>\<open>null\<close>: not constructed yet\<close>

text \<open>The preset table, in the order its \<^verbatim>\<open>sort\<close> leaves it (resolution, then video bitrate,
  descending), which is the order it is written in.\<close>

definition qualityLevelPresets :: "QualityLevelPreset list" where
  "qualityLevelPresets =
     [\<lparr>name = ''1080p-extra'', resolution = Some 1080, videoBitrate = 14400, audioBitrate = 320\<rparr>,
      \<lparr>name = ''1080p'', resolution = Some 1080, videoBitrate = 9600, audioBitrate = 224\<rparr>,
      \<lparr>name = ''720p'', resolution = Some 720, videoBitrate = 4800, audioBitrate = 160\<rparr>,
      \<lparr>name = ''480p'', resolution = Some 480, videoBitrate = 2400, audioBitrate = 128\<rparr>,
      \<lparr>name = ''360p'', resolution = Some 360, videoBitrate = 1200, audioBitrate = 112\<rparr>]"

definition audioPreset :: QualityLevelPreset where
  "audioPreset = \<lparr>name = ''audio'', resolution = None, videoBitrate = 0, audioBitrate = 320\<rparr>"

record VideoInfo =
  video_relPath :: string
  video_outDir :: string
  qualityLevels :: "(string \<times> QualityLevel) list"
  video_breakpoints :: "real list"

record AudioInfo =
  audio_relPath :: string
  audio_outDir :: string
  audio_backend :: MediaBackend

text \<open>\<^verbatim>\<open>Math.round\<close>: to the nearest integer, halves upwards. Its argument here is an exact
  real; the source rounds the quotient and the product to doubles first, which can move a
  value that lies next to a half (and a width or height of 0 gives NaN or Infinity there).
  At the frame sizes evaluated below both give the same integers.\<close>

definition Math_round :: "real \<Rightarrow> int" where
  "Math_round x = \<lfloor>x + 1 / 2\<rfloor>"

text \<open>The constructor of \<open>VideoInfo\<close>, from what it reads in the ffprobe output: the duration,
  the width and height of the first stream and the I-frame times.\<close>

definition new_VideoInfo :: "string \<Rightarrow> string \<Rightarrow> real \<Rightarrow> int \<Rightarrow> int \<Rightarrow> real list \<Rightarrow> jserror + VideoInfo" where
  "new_VideoInfo rel out duration w h rawIFrames =
     (if \<not> duration > 0.5 then Inl (AssertionError ''Video too short.'')
      else
        let res = min w h
        in case convertToSegments_default rawIFrames duration of
             None \<Rightarrow> Inl (Error ''convertToSegments does not return'')
           | Some bps \<Rightarrow>
               let applicable = filter (\<lambda>p. case resolution p of Some r \<Rightarrow> r \<le> real_of_int res | None \<Rightarrow> False)
                                  qualityLevelPresets;
                   presets = (if length applicable = 0 then [last qualityLevelPresets] else applicable)
               in Inr \<lparr>video_relPath = rel, video_outDir = out,
                       qualityLevels =
                         foldl (\<lambda>m p. AList.update (name p)
                                  \<lparr>level_preset = p,
                                   width = Math_round (real_of_int w / real_of_int res * (case resolution p of Some r \<Rightarrow> r | None \<Rightarrow> 0)),
                                   height = Math_round (real_of_int h / real_of_int res * (case resolution p of Some r \<Rightarrow> r | None \<Rightarrow> 0)),
                                   backend = None\<rparr> m)
                           [] presets,
                       video_breakpoints = bps\<rparr>)"

definition new_AudioInfo :: "string \<Rightarrow> string \<Rightarrow> real \<Rightarrow> jserror + AudioInfo" where
  "new_AudioInfo rel out duration =
     (if \<not> duration > 0.5 then Inl (AssertionError ''Video too short.'')
      else case convertToSegments_default [] duration of
             None \<Rightarrow> Inl (Error ''convertToSegments does not return'')
           | Some bps \<Rightarrow>
               Inr \<lparr>audio_relPath = rel, audio_outDir = out,
                    audio_backend = new_MediaBackend audioPreset bps rel out\<rparr>)"

text \<open>
  \<open>getBackendByQualityLevel\<close>. The result \<open>Inr None\<close> is a normal return of \<^verbatim>\<open>undefined\<close>;
  \<open>Inl\<close> is a thrown error. The video descriptor builds the backend on first use, so it is
  returned updated.
\<close>

definition VideoInfo_getBackendByQualityLevel ::
    "VideoInfo \<Rightarrow> string \<Rightarrow> (jserror + MediaBackend option) \<times> VideoInfo" where
  "VideoInfo_getBackendByQualityLevel v qualityLevel =
     (case map_of (qualityLevels v) qualityLevel of
        None \<Rightarrow> (Inl (AssertionError ''Quality level not exists.''), v)
      | Some level \<Rightarrow>
          (case backend level of
             Some b \<Rightarrow> (Inr (Some b), v)
           | None \<Rightarrow>
               let b = new_MediaBackend (level_preset level) (video_breakpoints v) (video_relPath v) (video_outDir v)
               in (Inr (Some b),
                   v\<lparr>qualityLevels := AList.update qualityLevel (level\<lparr>backend := Some b\<rparr>) (qualityLevels v)\<rparr>)))"

definition AudioInfo_getBackendByQualityLevel ::
    "AudioInfo \<Rightarrow> string \<Rightarrow> (jserror + MediaBackend option) \<times> AudioInfo" where
  "AudioInfo_getBackendByQualityLevel a level =
     (Inr (if name audioPreset = level then Some (audio_backend a) else None), a)"

text \<open>The master manifest of a video: its lines, then joined with the line separator of the
  operating system.\<close>

definition streamInfLine :: "string \<Rightarrow> QualityLevel \<Rightarrow> string" where
  "streamInfLine levelName level =
     ''#EXT-X-STREAM-INF:BANDWIDTH=''
       @ Number_toString \<lceil>real_of_int (videoBitrate (level_preset level) + audioBitrate (level_preset level)) * 1.05\<rceil>
       @ '',RESOLUTION='' @ Number_toString (width level) @ ''x'' @ Number_toString (height level)
       @ '',NAME='' @ levelName"

definition getMasterManifest_lines :: "VideoInfo \<Rightarrow> string list" where
  "getMasterManifest_lines v =
     ''#EXTM3U'' # concat (map (\<lambda>(levelName, level).
                                  [streamInfLine levelName level, ''quality-'' @ levelName @ ''.m3u8''])
                            (qualityLevels v))"

fun join :: "string list \<Rightarrow> string \<Rightarrow> string" where
  "join [] sep = []"
| "join [x] sep = x"
| "join (x # y # ys) sep = x @ sep @ join (y # ys) sep"

definition VideoInfo_getMasterManifest :: "string \<Rightarrow> VideoInfo \<Rightarrow> string" where
  "VideoInfo_getMasterManifest EOL v = join (getMasterManifest_lines v) EOL"

text \<open>The bandwidth in the words of the specification:
  \<open>ceil((videoBitrate + audioBitrate) \<times> 1.05 \<times> 1000)\<close>.\<close>

definition spec_BANDWIDTH :: "QualityLevelPreset \<Rightarrow> int" where
  "spec_BANDWIDTH p = \<lceil>real_of_int (videoBitrate p + audioBitrate p) * 1.05 * 1000\<rceil>"

section \<open>Router (HlsVod.getBackend)\<close>

text \<open>
  The router keeps a \<^verbatim>\<open>Promise<MediaBackend>\<close> per client. The model names a backend by its
  file and preset and records what a promise settles to; the calls that reach the backends'
  \<open>removeClient\<close> are logged in order.
\<close>

record backendRef =
  ref_relPath :: string
  ref_presetName :: string

datatype backendPromise = Resolves backendRef | ResolvesUndefined | Rejects jserror

record HlsVod =
  maxClientNumber :: nat
  clientTracker :: "(string \<times> backendPromise) list"
  removeClientCalls :: "(backendRef \<times> string) list"

text \<open>
  \<open>getBackend\<close>; \<open>newLookupPromise\<close> stands for
  \<^verbatim>\<open>this.cachedMedia.get(type + file).then(mediaInfo => mediaInfo.getBackendByQualityLevel(qualityLevel))\<close>.
  In the eviction branch \<open>victimValue\<close> is the promise itself, which has no method
  \<open>removeClient\<close>: the call throws a \<open>TypeError\<close> once the victim has left the map.
\<close>

definition getBackend ::
    "HlsVod \<Rightarrow> string \<Rightarrow> string \<Rightarrow> string \<Rightarrow> backendPromise \<Rightarrow> (jserror + backendPromise) \<times> HlsVod" where
  "getBackend h clientId file qualityLevel newLookupPromise =
     (let existing = map_of (clientTracker h) clientId;
          h1 = h\<lparr>clientTracker := AList.delete clientId (clientTracker h)\<rparr>;
          register = (\<lambda>h'. (Inr newLookupPromise,
                             h'\<lparr>clientTracker := AList.update clientId newLookupPromise (clientTracker h')\<rparr>))
      in case existing of
           None \<Rightarrow>
             if length (clientTracker h1) > maxClientNumber h1
             then (case clientTracker h1 of
                     (victimKey, victimValue) # _ \<Rightarrow>
                       (Inl (TypeError ''victimValue.removeClient is not a function''),
                        h1\<lparr>clientTracker := AList.delete victimKey (clientTracker h1)\<rparr>)
                   | [] \<Rightarrow> register h1)
             else register h1
         | Some (Resolves theBackend) \<Rightarrow>
             if ref_presetName theBackend \<noteq> qualityLevel \<or> ref_relPath theBackend \<noteq> file
             then register (h1\<lparr>removeClientCalls := removeClientCalls h1 @ [(theBackend, clientId)]\<rparr>)
             else register h1
         | Some _ \<Rightarrow> register h1)"

section \<open>LRU map with asynchronous construction and destruction (LruCacheMapForAsync)\<close>

text \<open>
  The map holds promises, and what the claims are about happens between its calls: a
  constructor or destructor finishing, a \<^verbatim>\<open>then\<close> reaction being run. The model keeps every
  promise the map has created, named by the order of creation, with the key it was created
  for and its state:
  \<^item> \<open>CtorWaiting d\<close>: \<^verbatim>\<open>destruction.then(ctor, ctor)\<close>, the constructor has not started and waits
    for the destruction promise \<open>d\<close> to settle;
  \<^item> \<open>CtorRunning\<close>: \<^verbatim>\<open>asyncConstructor(key)\<close> is in flight;
  \<^item> \<open>CtorResolved v\<close>, \<open>CtorRejected\<close>: the construction promise has settled;
  \<^item> \<open>DtorWaiting c\<close>: \<^verbatim>\<open>info.then(info => asyncDestructor(info, key))\<close> waits for the
    construction promise \<open>c\<close>;
  \<^item> \<open>DtorRunning v\<close>: \<^verbatim>\<open>asyncDestructor(v, key)\<close> is in flight;
  \<^item> \<open>DtorResolved\<close>, \<open>DtorRejected\<close>: the destruction promise has settled.
  Everything runs on one thread, so each function below is one uninterrupted step.
\<close>

datatype 'v pstate =
    CtorWaiting nat | CtorRunning | CtorResolved 'v | CtorRejected
  | DtorWaiting nat | DtorRunning 'v | DtorResolved | DtorRejected

record ('k, 'v) LruCacheMapForAsync =
  cacheSize :: nat
  cache :: "('k \<times> nat) list"
  destructions :: "('k \<times> nat) list"
  promises :: "('k \<times> 'v pstate) list"

definition new_LruCacheMapForAsync :: "nat \<Rightarrow> ('k, 'v) LruCacheMapForAsync" where
  "new_LruCacheMapForAsync n = \<lparr>cacheSize = n, cache = [], destructions = [], promises = []\<rparr>"

definition lru_delete :: "'k \<Rightarrow> ('k, 'v) LruCacheMapForAsync \<Rightarrow> nat option \<times> ('k, 'v) LruCacheMapForAsync" where
  "lru_delete key m =
     (case map_of (cache m) key of
        None \<Rightarrow> (map_of (destructions m) key, m)
      | Some info \<Rightarrow>
          let destruction = length (promises m)
          in (Some destruction,
              m\<lparr>promises := promises m @ [(key, DtorWaiting info)],
                cache := AList.delete key (cache m),
                destructions := AList.update key destruction (destructions m)\<rparr>))"

text \<open>The private \<open>set\<close>. With an empty cache (capacity 0) the evicted key is \<^verbatim>\<open>undefined\<close>,
  for which \<open>delete\<close> finds nothing and does nothing.\<close>

definition lru_set :: "'k \<Rightarrow> nat \<Rightarrow> ('k, 'v) LruCacheMapForAsync \<Rightarrow> ('k, 'v) LruCacheMapForAsync" where
  "lru_set key info m =
     (let m' = (if length (cache m) \<ge> cacheSize m
                then (case cache m of [] \<Rightarrow> m | (first, _) # _ \<Rightarrow> snd (lru_delete first m))
                else m)
      in m'\<lparr>cache := AList.update key info (cache m')\<rparr>)"

definition lru_get :: "'k \<Rightarrow> ('k, 'v) LruCacheMapForAsync \<Rightarrow> nat \<times> ('k, 'v) LruCacheMapForAsync" where
  "lru_get key m =
     (case map_of (cache m) key of
        None \<Rightarrow>
          let info = length (promises m);
              m1 = m\<lparr>promises := promises m
                        @ [(key, case map_of (destructions m) key of
                                   Some destruction \<Rightarrow> CtorWaiting destruction
                                 | None \<Rightarrow> CtorRunning)]\<rparr>;
              m2 = lru_set key info m1
          in (info, m2\<lparr>cache := AList.update key info (cache m2)\<rparr>)
      | Some info \<Rightarrow>
          (info, m\<lparr>cache := AList.update key info (AList.delete key (cache m))\<rparr>))"

text \<open>A settled promise.\<close>

fun settled :: "'v pstate \<Rightarrow> bool" where
  "settled (CtorResolved v) = True"
| "settled CtorRejected = True"
| "settled DtorResolved = True"
| "settled DtorRejected = True"
| "settled _ = False"

definition setState :: "nat \<Rightarrow> 'v pstate \<Rightarrow> ('k, 'v) LruCacheMapForAsync \<Rightarrow> ('k, 'v) LruCacheMapForAsync" where
  "setState p st m = m\<lparr>promises := (promises m)[p := (fst (promises m ! p), st)]\<rparr>"

text \<open>A running constructor or destructor finishes: \<open>Some v\<close> is success (with the
  instance, for a constructor), \<open>None\<close> is failure.\<close>

definition lru_finish :: "nat \<Rightarrow> 'v option \<Rightarrow> ('k, 'v) LruCacheMapForAsync \<Rightarrow> ('k, 'v) LruCacheMapForAsync" where
  "lru_finish p outcome m =
     (if p < length (promises m)
      then (case snd (promises m ! p) of
              CtorRunning \<Rightarrow> setState p (case outcome of Some v \<Rightarrow> CtorResolved v | None \<Rightarrow> CtorRejected) m
            | DtorRunning v \<Rightarrow> setState p (case outcome of Some _ \<Rightarrow> DtorResolved | None \<Rightarrow> DtorRejected) m
            | _ \<Rightarrow> m)
      else m)"

text \<open>The reaction of a waiting promise, once the promise it waits for has settled:
  \<^verbatim>\<open>then(ctor, ctor)\<close> starts the constructor on success and on failure alike; the destruction
  starts the destructor on the constructed instance, and is rejected without one if the
  construction failed.\<close>

definition lru_react :: "nat \<Rightarrow> ('k, 'v) LruCacheMapForAsync \<Rightarrow> ('k, 'v) LruCacheMapForAsync" where
  "lru_react p m =
     (if p < length (promises m)
      then (case snd (promises m ! p) of
              CtorWaiting d \<Rightarrow>
                if d < length (promises m) \<and> settled (snd (promises m ! d)) then setState p CtorRunning m else m
            | DtorWaiting c \<Rightarrow>
                if c < length (promises m)
                then (case snd (promises m ! c) of
                        CtorResolved v \<Rightarrow> setState p (DtorRunning v) m
                      | CtorRejected \<Rightarrow> setState p DtorRejected m
                      | _ \<Rightarrow> m)
                else m
            | _ \<Rightarrow> m)
      else m)"

text \<open>The handler \<open>get\<close> attaches with \<^verbatim>\<open>info.catch\<close>: after a failed construction the entry is
  removed if the cache still holds that very promise.\<close>

definition lru_catch :: "nat \<Rightarrow> ('k, 'v) LruCacheMapForAsync \<Rightarrow> ('k, 'v) LruCacheMapForAsync" where
  "lru_catch p m =
     (if p < length (promises m) \<and> snd (promises m ! p) = CtorRejected
         \<and> map_of (cache m) (fst (promises m ! p)) = Some p
      then m\<lparr>cache := AList.delete (fst (promises m ! p)) (cache m)\<rparr>
      else m)"

datatype ('k, 'v) lru_event =
    Get 'k | Delete 'k | Finish nat "'v option" | React nat | Catch nat

fun lru_step :: "('k, 'v) LruCacheMapForAsync \<Rightarrow> ('k, 'v) lru_event \<Rightarrow> ('k, 'v) LruCacheMapForAsync" where
  "lru_step m (Get key) = snd (lru_get key m)"
| "lru_step m (Delete key) = snd (lru_delete key m)"
| "lru_step m (Finish p outcome) = lru_finish p outcome m"
| "lru_step m (React p) = lru_react p m"
| "lru_step m (Catch p) = lru_catch p m"

definition lru_run :: "nat \<Rightarrow> ('k, 'v) lru_event list \<Rightarrow> ('k, 'v) LruCacheMapForAsync" where
  "lru_run n events = foldl lru_step (new_LruCacheMapForAsync n) events"

text \<open>What runs for a key: constructors in flight, destructors in flight.\<close>

fun ctorRunning :: "'v pstate \<Rightarrow> bool" where
  "ctorRunning CtorRunning = True"
| "ctorRunning _ = False"

fun dtorRunning :: "'v pstate \<Rightarrow> bool" where
  "dtorRunning (DtorRunning v) = True"
| "dtorRunning _ = False"

definition runningFor :: "'k \<Rightarrow> ('k, 'v) LruCacheMapForAsync \<Rightarrow> ('k \<times> 'v pstate) list" where
  "runningFor key m = filter (\<lambda>(k, st). k = key \<and> (ctorRunning st \<or> dtorRunning st)) (promises m)"

text \<open>Constructors and destructors in flight for a key, and the moment a constructor starts:
  promise \<open>p\<close> runs its constructor after the step and did not before.\<close>

definition ctorsRunningFor :: "'k \<Rightarrow> ('k, 'v) LruCacheMapForAsync \<Rightarrow> ('k \<times> 'v pstate) list" where
  "ctorsRunningFor key m = filter (\<lambda>(k, st). k = key \<and> ctorRunning st) (promises m)"

definition dtorsRunningFor :: "'k \<Rightarrow> ('k, 'v) LruCacheMapForAsync \<Rightarrow> ('k \<times> 'v pstate) list" where
  "dtorsRunningFor key m = filter (\<lambda>(k, st). k = key \<and> dtorRunning st) (promises m)"

definition ctorStarts :: "('k, 'v) LruCacheMapForAsync \<Rightarrow> ('k, 'v) LruCacheMapForAsync \<Rightarrow> nat \<Rightarrow> bool" where
  "ctorStarts m m' p \<longleftrightarrow>
     p < length (promises m') \<and> ctorRunning (snd (promises m' ! p))
     \<and> \<not> (p < length (promises m) \<and> ctorRunning (snd (promises m ! p)))"

text \<open>
  The invariant behind the serialisation. A waiting promise waits for an earlier promise of
  its key, and everything of that key in between has settled (\<open>invW\<close>); a promise that has
  started has only settled promises of its key before it (\<open>invK\<close>); the promise the next
  call would chain on (the cache entry, else the destructions entry) has only settled
  promises of its key after it, and without such a promise everything of the key has
  settled (\<open>invT\<close>); the two maps point to promises of the right key (\<open>invD\<close>).
\<close>

fun waitsOn :: "'v pstate \<Rightarrow> nat option" where
  "waitsOn (CtorWaiting d) = Some d"
| "waitsOn (DtorWaiting c) = Some c"
| "waitsOn _ = None"

definition started :: "'v pstate \<Rightarrow> bool" where
  "started st \<longleftrightarrow> waitsOn st = None"

definition tailOf :: "('k \<rightharpoonup> nat) \<Rightarrow> ('k \<rightharpoonup> nat) \<Rightarrow> 'k \<rightharpoonup> nat" where
  "tailOf cm dm k = (case cm k of Some c \<Rightarrow> Some c | None \<Rightarrow> dm k)"

definition invW :: "('k \<times> 'v pstate) list \<Rightarrow> bool" where
  "invW ps \<longleftrightarrow> (\<forall>p w. p < length ps \<and> waitsOn (snd (ps ! p)) = Some w \<longrightarrow>
      w < p \<and> fst (ps ! w) = fst (ps ! p)
      \<and> (\<forall>q. w < q \<and> q < p \<and> fst (ps ! q) = fst (ps ! p) \<longrightarrow> settled (snd (ps ! q))))"

definition invK :: "('k \<times> 'v pstate) list \<Rightarrow> bool" where
  "invK ps \<longleftrightarrow> (\<forall>p q. p < q \<and> q < length ps \<and> fst (ps ! p) = fst (ps ! q) \<and> started (snd (ps ! q))
      \<longrightarrow> settled (snd (ps ! p)))"

definition invT :: "('k \<times> 'v pstate) list \<Rightarrow> ('k \<rightharpoonup> nat) \<Rightarrow> ('k \<rightharpoonup> nat) \<Rightarrow> bool" where
  "invT ps cm dm \<longleftrightarrow> (\<forall>k. case tailOf cm dm k of
       Some t \<Rightarrow> \<forall>q. t < q \<and> q < length ps \<and> fst (ps ! q) = k \<longrightarrow> settled (snd (ps ! q))
     | None \<Rightarrow> \<forall>q. q < length ps \<and> fst (ps ! q) = k \<longrightarrow> settled (snd (ps ! q)))"

definition invD :: "('k \<times> 'v pstate) list \<Rightarrow> ('k \<rightharpoonup> nat) \<Rightarrow> bool" where
  "invD ps dm \<longleftrightarrow> (\<forall>k d. dm k = Some d \<longrightarrow> d < length ps \<and> fst (ps ! d) = k)"

definition lruInv3 :: "('k \<times> 'v pstate) list \<Rightarrow> ('k \<rightharpoonup> nat) \<Rightarrow> ('k \<rightharpoonup> nat) \<Rightarrow> bool" where
  "lruInv3 ps cm dm \<longleftrightarrow> invW ps \<and> invK ps \<and> invT ps cm dm \<and> invD ps cm \<and> invD ps dm"

definition lruInv :: "('k, 'v) LruCacheMapForAsync \<Rightarrow> bool" where
  "lruInv m \<longleftrightarrow> lruInv3 (promises m) (map_of (cache m)) (map_of (destructions m))"

text \<open>A key is requested, evicted while its constructor runs, requested again, and then the
  constructor and the destructor finish.\<close>

definition reuseEvents :: "(string, nat) lru_event list" where
  "reuseEvents = [Get ''Va.mp4'', Delete ''Va.mp4'', Get ''Va.mp4'', Finish 0 (Some 7), React 1, Finish 1 (Some 7)]"

section \<open>Planner: proofs\<close>

text \<open>
  Claim C1: every consecutive difference of the planner's output lies in \<open>[L - O, L + O]\<close>, with
  at most one exception that arises only when the final gap is shorter than \<open>L - O\<close>, for
  every tolerance in the list that contains \<open>(50, 1)\<close>. The comment on the function promises
  the same ("all segments are between minSegmentLength and maxSegmentLength"), and the
  repository's test expects every difference to be at least \<open>L - O\<close> for \<open>(50, 1)\<close>. The code
  does not keep that promise. A duration of 51 seconds without I-frames is cut into two halves
  of 25.5 seconds: two differences lie below \<open>L - O = 49\<close>, and the final gap, 51, was not
  shorter than 49. The I-frames \<open>[5, 55]\<close> with duration 555, which the test lists, give two
  segments of 27.5 seconds. The branch for a long gap divides it into
  \<open>\<lceil>gap / L\<rceil>\<close> equal pieces, and nothing makes a piece as long as \<open>L - O\<close>.
\<close>

theorem convertToSegments_below_minimum:
  "convertToSegments [] 51 50 1 = Some [0, 25.5, 51]
   \<and> gapsOutOfTolerance 50 1 [0, 25.5, 51] = 2
   \<and> \<not> (51 - 0 < (50::real) - 1)
   \<and> convertToSegments [5, 55] 555 50 1
        = Some [0, 27.5, 55, 105, 155, 205, 255, 305, 355, 405, 455, 505, 555]
   \<and> gapsOutOfTolerance 50 1 [0, 27.5, 55, 105, 155, 205, 255, 305, 355, 405, 455, 505, 555] = 2"
  by (simp add: convertToSegments_def segmentStep_def Let_def numeral_eq_Suc gapsOutOfTolerance_def)

text \<open>Without \<open>O < L\<close> the output need not be strictly increasing: an I-frame at 0 is accepted.\<close>

lemma convertToSegments_zero_minimum: "convertToSegments [0] 1 1 1 = Some [0, 0, 1]"
  by (simp add: convertToSegments_def segmentStep_def Let_def)

lemma convertToSegments_example:
  "convertToSegments_default [3, 6, 20] 31
     = Some [0, 3, 6, 9.5, 13, 16.5, 20, 22.75, 25.5, 28.25, 31]"
  by (simp add: convertToSegments_default_def convertToSegments_def segmentStep_def Let_def numeral_eq_Suc)

text \<open>
  Claim C9: the I-frame list \<open>[3, 6, 20]\<close> with duration 31 and the default parameters gives
  exactly the breakpoints of the repository's own test.
\<close>

theorem convertToSegments_basic:
  "convertToSegments_default [3, 6, 20] 31
     = Some [0, 3, 6, 9.5, 13, 16.5, 20, 22.75, 25.5, 28.25, 31]"
  by (rule convertToSegments_example)

section \<open>Quality backend: proofs\<close>

subsection \<open>Decimal digits\<close>

lemma decimal_nonempty: "decimal n \<noteq> []"
  by (subst decimal.simps) simp

lemma decimal_length_le: "0 < k \<Longrightarrow> n < 10 ^ k \<Longrightarrow> length (decimal n) \<le> k"
proof (induction k arbitrary: n)
  case 0
  then show ?case by simp
next
  case (Suc k)
  show ?case
  proof (cases "n < 10")
    case True
    then show ?thesis by (subst decimal.simps) simp
  next
    case False
    then have k: "0 < k" using Suc.prems by (cases k) auto
    have "n div 10 < 10 ^ k" using Suc.prems by (simp add: less_mult_imp_div_less mult.commute)
    from Suc.IH [OF k this] False show ?thesis by (subst decimal.simps) simp
  qed
qed

lemma decimal_length_gt: "10 ^ k \<le> n \<Longrightarrow> k < length (decimal n)"
proof (induction k arbitrary: n)
  case 0
  then show ?case using decimal_nonempty [of n] by (cases "decimal n") auto
next
  case (Suc k)
  have "(1::nat) \<le> 10 ^ k" by simp
  then have "10 \<le> n" using Suc.prems unfolding power_Suc by linarith
  moreover have "10 ^ k \<le> n div 10" using Suc.prems by (simp add: less_eq_div_iff_mult_less_eq)
  ultimately show ?case using Suc.IH [of "n div 10"] by (subst decimal.simps) simp
qed

lemma fixedWidth_zero: "fixedWidth k 0 = replicate k CHR ''0''"
  by (induction k) (simp_all add: digitChar_def replicate_append_same)

lemma pad_decimal: "0 < k \<Longrightarrow> n < 10 ^ k \<Longrightarrow> replicate (k - length (decimal n)) CHR ''0'' @ decimal n = fixedWidth k n"
proof (induction k arbitrary: n)
  case 0
  then show ?case by simp
next
  case (Suc k)
  show ?case
  proof (cases "n < 10")
    case True
    then have "decimal n = [digitChar n]" by (subst decimal.simps) simp
    then show ?thesis using True by (simp add: fixedWidth_zero)
  next
    case False
    then have k: "0 < k" using Suc.prems by (cases k) auto
    have lt: "n div 10 < 10 ^ k" using Suc.prems by (simp add: less_mult_imp_div_less mult.commute)
    have d: "decimal n = decimal (n div 10) @ [digitChar (n mod 10)]"
      using False by (subst decimal.simps) simp
    show ?thesis using Suc.IH [OF k lt] by (simp add: d)
  qed
qed

lemma decimal_leading_one: "10 ^ k \<le> n \<Longrightarrow> n < 2 * 10 ^ k \<Longrightarrow> decimal n = CHR ''1'' # fixedWidth k (n - 10 ^ k)"
proof (induction k arbitrary: n)
  case 0
  then have "n = 1" by simp
  then show ?case by (simp add: decimal.simps digitChar_def)
next
  case (Suc k)
  have "(1::nat) \<le> 10 ^ k" by simp
  then have ge: "10 \<le> n" using Suc.prems(1) unfolding power_Suc by linarith
  have d: "decimal n = decimal (n div 10) @ [digitChar (n mod 10)]"
    using ge by (subst decimal.simps) simp
  have lo: "10 ^ k \<le> n div 10" using Suc.prems by (simp add: less_eq_div_iff_mult_less_eq)
  have hi: "n div 10 < 2 * 10 ^ k" using Suc.prems by (simp add: less_mult_imp_div_less mult.commute)
  obtain r where r: "n = 10 * 10 ^ k + r" using Suc.prems(1) by (auto simp: le_iff_add)
  have "(n - 10 ^ Suc k) div 10 = n div 10 - 10 ^ k" by (simp add: r)
  moreover have "(n - 10 ^ Suc k) mod 10 = n mod 10" by (simp add: r)
  ultimately show ?case using Suc.IH [OF lo hi] by (simp add: d)
qed


subsection \<open>Segment file names\<close>

lemma getSegment_fileName:
  assumes "parseInt16 segmentNumber = Some (int i + 1)" "i < length (breakpoints b) - 1"
    "map_of (clients b) clientId = Some ci" "\<not> deleted ci"
  shows "fst (getSegment b clientId segmentNumber)
           = Inr (Proceed (segmentFileName (name (preset b)) i) (segmentStatusAt b i = Some DONE))"
  using assms by (auto simp: getSegment_def getSegment_serve_def Let_def)


lemma fixedWidth_add: "fixedWidth k (n + 10 ^ k * c) = fixedWidth k n"
proof (induction k arbitrary: n c)
  case 0
  then show ?case by simp
next
  case (Suc k)
  have "(n + 10 ^ Suc k * c) div 10 = n div 10 + 10 ^ k * c" by simp
  moreover have "(n + 10 ^ Suc k * c) mod 10 = n mod 10"
  proof -
    have "n + 10 ^ Suc k * c = n + 10 * (10 ^ k * c)" by simp
    then show ?thesis by (simp only: mod_mult_self2)
  qed
  ultimately show ?case using Suc.IH [of "n div 10" c] by simp
qed

lemma decimal_leading_digit:
  "10 ^ k \<le> n \<Longrightarrow> n < 10 ^ Suc k \<Longrightarrow> decimal n = digitChar (n div 10 ^ k) # fixedWidth k n"
proof (induction k arbitrary: n)
  case 0
  then show ?case by (simp add: decimal.simps)
next
  case (Suc k)
  have "(1::nat) \<le> 10 ^ k" by simp
  then have ge: "10 \<le> n" using Suc.prems(1) unfolding power_Suc by linarith
  have d: "decimal n = decimal (n div 10) @ [digitChar (n mod 10)]"
    using ge by (subst decimal.simps) simp
  have lo: "10 ^ k \<le> n div 10" using Suc.prems by (simp add: less_eq_div_iff_mult_less_eq)
  have hi: "n div 10 < 10 ^ Suc k" using Suc.prems by (simp add: less_mult_imp_div_less mult.commute)
  have "n div 10 div 10 ^ k = n div 10 ^ Suc k" by (simp add: div_mult2_eq)
  then show ?case using Suc.IH [OF lo hi] by (simp add: d)
qed

lemma segmentFileName_large:
  assumes "100000 \<le> i" "i < 900000"
  shows "segmentFileName presetName i = presetName @ ''-'' @ fixedWidth 5 i @ ''.ts''"
proof -
  have m: "(i + 100000) mod 1000000 = i + 100000" using assms by simp
  have "decimal (i + 100000) = digitChar ((i + 100000) div 10 ^ 5) # fixedWidth 5 (i + 100000)"
    by (rule decimal_leading_digit) (use assms in simp_all)
  moreover have "fixedWidth 5 (i + 10 ^ 5 * 1) = fixedWidth 5 i" by (rule fixedWidth_add)
  ultimately have "drop 1 (decimal (i + 100000)) = fixedWidth 5 i" by simp
  then show ?thesis unfolding segmentFileName_def m by simp
qed

text \<open>
  Claim C10. For every segment index \<open>i < 100000\<close> the file name \<open>getSegment\<close> computes is
  the preset name, a dash, the five-digit zero-padded decimal of \<open>i\<close> and \<^verbatim>\<open>.ts\<close>, which is the
  name ffmpeg writes under its \<^verbatim>\<open>%05d\<close> pattern. For every \<open>i \<ge> 100000\<close> the computed name
  differs from the name ffmpeg wrote: up to 899999 it holds the last five digits of \<open>i\<close>,
  the leading digit dropped.
\<close>

theorem segmentFileName_matches_ffmpeg:
  "(i < 100000 \<longrightarrow> segmentFileName presetName i = presetName @ ''-'' @ fixedWidth 5 i @ ''.ts''
        \<and> segmentFileName presetName i = ffmpegSegmentName presetName i)
   \<and> (100000 \<le> i \<longrightarrow> segmentFileName presetName i \<noteq> ffmpegSegmentName presetName i)
   \<and> (100000 \<le> i \<and> i < 900000 \<longrightarrow>
        segmentFileName presetName i = presetName @ ''-'' @ fixedWidth 5 i @ ''.ts'')"
proof (intro conjI impI)
  assume lt: "i < 100000"
  have m: "(i + 100000) mod 1000000 = i + 100000" using lt by simp
  have "decimal (i + 100000) = CHR ''1'' # fixedWidth 5 (i + 100000 - 10 ^ 5)"
    by (rule decimal_leading_one) (use lt in simp_all)
  then have d: "drop 1 (decimal (i + 100000)) = fixedWidth 5 i" by simp
  show f: "segmentFileName presetName i = presetName @ ''-'' @ fixedWidth 5 i @ ''.ts''"
    unfolding segmentFileName_def m d ..
  have "replicate (5 - length (decimal i)) CHR ''0'' @ decimal i = fixedWidth 5 i"
    by (rule pad_decimal) (use lt in simp_all)
  then show "segmentFileName presetName i = ffmpegSegmentName presetName i"
    unfolding f ffmpegSegmentName_def printf_05d_def by simp
next
  assume ge: "100000 \<le> i"
  have "10 ^ 5 \<le> i" using ge by simp
  from decimal_length_gt [OF this] have long: "5 < length (printf_05d i)"
    by (simp add: printf_05d_def)
  have "(i + 100000) mod 1000000 < 10 ^ 6" by simp
  from decimal_length_le [OF _ this]
  have "length (drop 1 (decimal ((i + 100000) mod 1000000))) \<le> 5" by simp
  with long have "length (segmentFileName presetName i) \<noteq> length (ffmpegSegmentName presetName i)"
    by (simp add: segmentFileName_def ffmpegSegmentName_def)
  then show "segmentFileName presetName i \<noteq> ffmpegSegmentName presetName i" by auto
next
  assume "100000 \<le> i \<and> i < 900000"
  then show "segmentFileName presetName i = presetName @ ''-'' @ fixedWidth 5 i @ ''.ts''"
    using segmentFileName_large by blast
qed

theorem segmentFileName_matches_ffmpeg_witness:
  "segmentFileName ''720p'' 7 = ''720p'' @ ''-'' @ fixedWidth 5 7 @ ''.ts''
   \<and> segmentFileName ''720p'' 7 = ffmpegSegmentName ''720p'' 7
   \<and> segmentFileName ''720p'' 123456 \<noteq> ffmpegSegmentName ''720p'' 123456
   \<and> segmentFileName ''720p'' 123456 = ''720p'' @ ''-'' @ fixedWidth 5 123456 @ ''.ts''"
proof -
  have small: "(7::nat) < 100000" and large: "(100000::nat) \<le> 123456"
    and range: "(100000::nat) \<le> 123456 \<and> (123456::nat) < 900000" by simp_all
  from segmentFileName_matches_ffmpeg [of 7 "''720p''"] small
  have "segmentFileName ''720p'' 7 = ''720p'' @ ''-'' @ fixedWidth 5 7 @ ''.ts''
      \<and> segmentFileName ''720p'' 7 = ffmpegSegmentName ''720p'' 7" by blast
  moreover from segmentFileName_matches_ffmpeg [of 123456 "''720p''"] large
  have "segmentFileName ''720p'' 123456 \<noteq> ffmpegSegmentName ''720p'' 123456" by blast
  moreover from segmentFileName_matches_ffmpeg [of 123456 "''720p''"] range
  have "segmentFileName ''720p'' 123456 = ''720p'' @ ''-'' @ fixedWidth 5 123456 @ ''.ts''" by blast
  ultimately show ?thesis by blast
qed

subsection \<open>The range of a new encoder\<close>

lemma startTranscode_endAt_first:
  assumes "startAt < j" "j < length (breakpoints b) - 1" "segmentStatusAt b j \<noteq> Some EMPTY"
    and "\<And>i. startAt < i \<Longrightarrow> i < j \<Longrightarrow> segmentStatusAt b i = Some EMPTY"
  shows "startTranscode_endAt b startAt = j"
proof -
  let ?xs = "[startAt + 1 ..< length (breakpoints b) - 1]"
  have "find (\<lambda>i. segmentStatusAt b i \<noteq> Some EMPTY) ?xs = Some j"
    unfolding find_Some_iff
  proof (intro exI [of _ "j - startAt - 1"] conjI allI impI)
    show "j - startAt - 1 < length ?xs" using assms(1,2) by simp
    then show "segmentStatusAt b (?xs ! (j - startAt - 1)) \<noteq> Some EMPTY" using assms(1,3) by simp
    show "j = ?xs ! (j - startAt - 1)" using assms(1,2) by simp
    fix i assume "i < j - startAt - 1"
    then show "\<not> segmentStatusAt b (?xs ! i) \<noteq> Some EMPTY" using assms(1,2) assms(4) [of "startAt + 1 + i"] by simp
  qed
  then show ?thesis by (simp add: startTranscode_endAt_def)
qed

lemma startTranscode_endAt_clamped:
  assumes "\<And>i. startAt < i \<Longrightarrow> i < length (breakpoints b) - 1 \<Longrightarrow> segmentStatusAt b i = Some EMPTY"
  shows "startTranscode_endAt b startAt = min (length (breakpoints b) - 1) (startAt + 512)"
proof -
  have "find (\<lambda>i. segmentStatusAt b i \<noteq> Some EMPTY) [startAt + 1 ..< length (breakpoints b) - 1] = None"
    unfolding find_None_iff using assms by auto
  then show ?thesis by (simp add: startTranscode_endAt_def)
qed

lemma longVideoBackend_status:
  "segmentStatusAt longVideoBackend i = (if i < 600 then Some (if i = 550 then DONE else EMPTY) else None)"
  by (simp add: longVideoBackend_def segmentStatusAt_def new_MediaBackend_def nth_list_update)

lemma startTranscode_args:
  "startTranscode b s = (Inr (t, a), b') \<Longrightarrow>
     arg_to a = breakpoints b ! startTranscode_endAt b s
     \<and> arg_segment_times a = drop (s + 1) (take (startTranscode_endAt b s) (breakpoints b))
     \<and> arg_segment_start_number a = s"
  by (auto simp: startTranscode_def Let_def split: if_splits sum.splits prod.splits)

lemma idAttempts_first: "idAttempts (Suc 0) = 2 # map (\<lambda>i. nat (js_rem (1 + i) 252 + 2)) [0 .. 250]"
proof -
  have "[- 1 .. 250] = - 1 # [0 .. (250::int)]" by (subst upto_rec1) simp_all
  then show ?thesis by (simp add: idAttempts_def js_rem_def del: upto_rec_numeral)
qed

lemma longVideoBackend_id:
  "findNextAvailableId (longVideoBackend\<lparr>spawned := Suc (spawned longVideoBackend)\<rparr>)
     = Inr (2, longVideoBackend\<lparr>spawned := Suc (spawned longVideoBackend), lastAssignedId := 2\<rparr>)"
proof -
  have "set ((replicate 600 EMPTY)[550 := DONE]) \<subseteq> {DONE, EMPTY}"
    using set_update_subset_insert [of "replicate 600 EMPTY" 550 DONE] by auto
  then have "2 \<notin> set ((replicate 600 EMPTY)[550 := DONE])" by (auto simp: EMPTY_def DONE_def)
  then show ?thesis
    by (simp add: findNextAvailableId_def longVideoBackend_def new_MediaBackend_def idAttempts_first list_ex_iff
          del: upto_rec_numeral)
qed

lemma longVideoBackend_startTranscode:
  "\<exists>a b'. startTranscode longVideoBackend 0 = (Inr (0, a), b')
      \<and> arg_to a = breakpoints longVideoBackend ! startTranscode_endAt longVideoBackend 0"
proof -
  have "0 < length (breakpoints longVideoBackend) - 1"
    by (simp add: longVideoBackend_def new_MediaBackend_def)
  moreover have "segmentStatusAt longVideoBackend 0 = Some EMPTY"
    by (simp add: longVideoBackend_status)
  moreover have "spawned longVideoBackend = 0" by (simp add: longVideoBackend_def new_MediaBackend_def)
  ultimately show ?thesis
    using longVideoBackend_id by (simp add: startTranscode_def Let_def)
qed

text \<open>
  Claim C5 says that the end index never exceeds \<open>min(N, s + 512)\<close>. The loop that looks for
  the first non-empty segment runs to \<open>N\<close>, not to the clamped end, so a non-empty segment
  beyond \<open>s + 512\<close> moves the end past the clamp: with 600 segments, segment 550 done and
  the rest empty, an encoder started at 0 (where the preconditions hold) is given the end
  index 550, above \<open>min(600, 512)\<close>: ffmpeg is started with \<^verbatim>\<open>-to 1650\<close>, the breakpoint 550.
\<close>

theorem startTranscode_endAt_exceeds_clamp:
  "startTranscode_endAt longVideoBackend 0 = 550
   \<and> \<not> 550 \<le> min (length (breakpoints longVideoBackend) - 1) (0 + 512)
   \<and> segmentStatusAt longVideoBackend 0 = Some EMPTY
   \<and> (\<exists>a b'. startTranscode longVideoBackend 0 = (Inr (0, a), b') \<and> arg_to a = 1650)"
proof -
  have e: "startTranscode_endAt longVideoBackend 0 = 550"
    by (rule startTranscode_endAt_first)
       (simp_all add: longVideoBackend_status EMPTY_def DONE_def, simp add: longVideoBackend_def new_MediaBackend_def)
  have len: "length (breakpoints longVideoBackend) = 601"
    by (simp add: longVideoBackend_def new_MediaBackend_def)
  have "breakpoints longVideoBackend ! 550 = 1650"
    by (simp add: longVideoBackend_def new_MediaBackend_def)
  then have "\<exists>a b'. startTranscode longVideoBackend 0 = (Inr (0, a), b') \<and> arg_to a = 1650"
    using longVideoBackend_startTranscode unfolding e by simp
  then show ?thesis using e len by (simp add: longVideoBackend_status)
qed

theorem startTranscode_endAt_witness:
  "(512::nat) < startTranscode_endAt longVideoBackend 0"
  using startTranscode_endAt_exceeds_clamp by simp

subsection \<open>Deleted clients\<close>

lemma update_fresh: "k \<notin> fst ` set al \<Longrightarrow> AList.update k v al = al @ [(k, v)]"
  by (induction al) auto

lemma getSegment_serve_not_409: "fst (getSegment_serve b clientId ci segmentNumber) \<noteq> Inr (SendStatus n)"
  by (simp add: getSegment_serve_def Let_def split: option.splits)

text \<open>
  Claim C7. \<open>getSegment\<close> answers 409 exactly when the client has a record whose \<open>deleted\<close>
  flag is set. Without a record it creates one with \<open>head = -1\<close> (not deleted) and goes on
  to serve the request with it. A \<open>removeClient\<close> for a client without a record inserts the
  stub \<open>head = -1, deleted = true\<close>, and a \<open>getSegment\<close> of that client that follows finds it
  and answers 409, whatever else has happened to the backend in between, as long as the
  client's record is still the stub.
\<close>

theorem getSegment_409:
  "(fst (getSegment b clientId segmentNumber) = Inr (SendStatus 409)
      \<longleftrightarrow> (\<exists>clientInfo. map_of (clients b) clientId = Some clientInfo \<and> deleted clientInfo))
   \<and> (map_of (clients b) clientId = None \<longrightarrow>
        getSegment b clientId segmentNumber
          = getSegment_serve
              (b\<lparr>clients := clients b @ [(clientId, \<lparr>head = - 1, transcoder = None, deleted = False\<rparr>)]\<rparr>)
              clientId \<lparr>head = - 1, transcoder = None, deleted = False\<rparr> segmentNumber
        \<and> (\<exists>clientInfo. map_of (clients (snd (getSegment b clientId segmentNumber))) clientId = Some clientInfo
              \<and> \<not> deleted clientInfo)
        \<and> map_of (clients (snd (removeClient b clientId))) clientId
              = Some \<lparr>head = - 1, transcoder = None, deleted = True\<rparr>
        \<and> fst (getSegment (snd (removeClient b clientId)) clientId segmentNumber) = Inr (SendStatus 409)
        \<and> (\<forall>b' :: MediaBackend. map_of (clients b') clientId = map_of (clients (snd (removeClient b clientId))) clientId
               \<longrightarrow> fst (getSegment b' clientId segmentNumber) = Inr (SendStatus 409)))"
proof (intro conjI impI allI)
  show "fst (getSegment b clientId segmentNumber) = Inr (SendStatus 409)
      \<longleftrightarrow> (\<exists>clientInfo. map_of (clients b) clientId = Some clientInfo \<and> deleted clientInfo)"
    by (auto simp: getSegment_def Let_def getSegment_serve_not_409 split: option.splits)
next
  assume none: "map_of (clients b) clientId = None"
  then have "clientId \<notin> fst ` set (clients b)" by (simp add: map_of_eq_None_iff)
  then have upd: "\<And>v. AList.update clientId v (clients b) = clients b @ [(clientId, v)]"
    by (rule update_fresh)
  show "getSegment b clientId segmentNumber
          = getSegment_serve
              (b\<lparr>clients := clients b @ [(clientId, \<lparr>head = - 1, transcoder = None, deleted = False\<rparr>)]\<rparr>)
              clientId \<lparr>head = - 1, transcoder = None, deleted = False\<rparr> segmentNumber"
    using none by (simp add: getSegment_def Let_def upd)
  show "\<exists>clientInfo. map_of (clients (snd (getSegment b clientId segmentNumber))) clientId = Some clientInfo
              \<and> \<not> deleted clientInfo"
    using none by (simp add: getSegment_def getSegment_serve_def Let_def update_conv' split: option.splits)
  show r: "map_of (clients (snd (removeClient b clientId))) clientId
              = Some \<lparr>head = - 1, transcoder = None, deleted = True\<rparr>"
    using none by (simp add: removeClient_def update_conv')
  show "fst (getSegment (snd (removeClient b clientId)) clientId segmentNumber) = Inr (SendStatus 409)"
    using r by (simp add: getSegment_def)
  fix b' :: MediaBackend
  assume "map_of (clients b') clientId = map_of (clients (snd (removeClient b clientId))) clientId"
  then show "fst (getSegment b' clientId segmentNumber) = Inr (SendStatus 409)"
    using r by (simp add: getSegment_def)
qed


theorem getSegment_409_witness:
  "map_of (clients (new_MediaBackend audioPreset [0, 3, 6, 9] ''a.mp3'' ''/cache/a'')) ''c1'' = None
   \<and> fst (getSegment (new_MediaBackend audioPreset [0, 3, 6, 9] ''a.mp3'' ''/cache/a'') ''c1'' ''2'')
        \<noteq> Inr (SendStatus 409)
   \<and> map_of (clients (snd (removeClient (new_MediaBackend audioPreset [0, 3, 6, 9] ''a.mp3'' ''/cache/a'') ''c1''))) ''c1''
        = Some \<lparr>head = - 1, transcoder = None, deleted = True\<rparr>
   \<and> fst (getSegment (snd (removeClient (new_MediaBackend audioPreset [0, 3, 6, 9] ''a.mp3'' ''/cache/a'') ''c1'')) ''c1'' ''2'')
        = Inr (SendStatus 409)"
proof -
  let ?b = "new_MediaBackend audioPreset [0, 3, 6, 9] ''a.mp3'' ''/cache/a''"
  have none: "map_of (clients ?b) ''c1'' = None"
    by (simp add: new_MediaBackend_def)
  note t = getSegment_409 [of ?b "''c1''" "''2''"]
  have a: "fst (getSegment ?b ''c1'' ''2'') \<noteq> Inr (SendStatus 409)"
  proof
    assume "fst (getSegment ?b ''c1'' ''2'') = Inr (SendStatus 409)"
    with t [THEN conjunct1] have "\<exists>clientInfo. map_of (clients ?b) ''c1'' = Some clientInfo \<and> deleted clientInfo"
      by (rule iffD1)
    then show False unfolding none by simp
  qed
  note r = t [THEN conjunct2, THEN mp, OF none]
  note b = r [THEN conjunct2, THEN conjunct2, THEN conjunct1]
  note c = r [THEN conjunct2, THEN conjunct2, THEN conjunct2, THEN conjunct1]
  show ?thesis by (intro conjI none a b c)
qed

section \<open>Media descriptors and router: proofs\<close>

lemma AudioInfo_getBackendByQualityLevel_never_throws:
  "fst (AudioInfo_getBackendByQualityLevel a level) \<noteq> Inl e"
  by (simp add: AudioInfo_getBackendByQualityLevel_def)

lemma VideoInfo_unknown_quality_throws:
  "map_of (qualityLevels v) level = None \<Longrightarrow>
     fst (VideoInfo_getBackendByQualityLevel v level) = Inl (AssertionError ''Quality level not exists.'')"
  by (simp add: VideoInfo_getBackendByQualityLevel_def)

text \<open>
  Claim C6 says that an unknown quality name fails with an error for video and audio alike.
  The video descriptor asserts that the level exists. The audio descriptor has no such
  check: for any name other than \<^verbatim>\<open>audio\<close>, here \<^verbatim>\<open>720p\<close>, it returns \<^verbatim>\<open>undefined\<close> and throws
  nothing.
\<close>

theorem audio_unknown_quality_returns_undefined:
  "fst (AudioInfo_getBackendByQualityLevel a ''720p'') = Inr None"
  by (simp add: AudioInfo_getBackendByQualityLevel_def audioPreset_def)

theorem audio_unknown_quality_witness:
  "fst (AudioInfo_getBackendByQualityLevel
          \<lparr>audio_relPath = ''a.mp3'', audio_outDir = ''/cache/a'',
           audio_backend = new_MediaBackend audioPreset [0, 3, 6, 9] ''a.mp3'' ''/cache/a''\<rparr> ''720p'')
     = Inr None"
  by (rule audio_unknown_quality_returns_undefined)

lemma bandwidth_below_spec:
  "0 < videoBitrate p + audioBitrate p \<Longrightarrow>
     \<lceil>real_of_int (videoBitrate p + audioBitrate p) * 1.05\<rceil> < spec_BANDWIDTH p"
proof -
  assume pos: "0 < videoBitrate p + audioBitrate p"
  define x where "x = real_of_int (videoBitrate p + audioBitrate p) * 1.05"
  have x: "1 \<le> x" using pos unfolding x_def by simp
  have "\<lceil>x\<rceil> < x + 1" by linarith
  also have "\<dots> \<le> x * 1000" using x by simp
  also have "\<dots> \<le> \<lceil>x * 1000\<rceil>" by linarith
  finally have "real_of_int \<lceil>x\<rceil> < real_of_int \<lceil>x * 1000\<rceil>" .
  then show ?thesis unfolding spec_BANDWIDTH_def x_def by simp
qed

text \<open>
  Claim C4 says that BANDWIDTH is \<open>ceil((videoBitrate + audioBitrate) \<times> 1.05 \<times> 1000)\<close>. The
  code leaves out the factor 1000: for a 1920x1080 video the manifest announces 15456 for
  the preset whose bitrates, given to ffmpeg in kilobits (\<^verbatim>\<open>14400k\<close> and \<^verbatim>\<open>320k\<close>), add up to
  15456000 bits per second with the overhead. Each stream line is followed by
  \<^verbatim>\<open>quality-<preset>.m3u8\<close>, as the claim says.
\<close>

theorem masterManifest_bandwidth:
  "map_sum id getMasterManifest_lines (new_VideoInfo ''a.mp4'' ''/cache/a'' 31 1920 1080 [3, 6, 20])
     = Inr [''#EXTM3U'',
            ''#EXT-X-STREAM-INF:BANDWIDTH=15456,RESOLUTION=1920x1080,NAME=1080p-extra'',
            ''quality-1080p-extra.m3u8'',
            ''#EXT-X-STREAM-INF:BANDWIDTH=10316,RESOLUTION=1920x1080,NAME=1080p'',
            ''quality-1080p.m3u8'',
            ''#EXT-X-STREAM-INF:BANDWIDTH=5208,RESOLUTION=1280x720,NAME=720p'',
            ''quality-720p.m3u8'',
            ''#EXT-X-STREAM-INF:BANDWIDTH=2655,RESOLUTION=853x480,NAME=480p'',
            ''quality-480p.m3u8'',
            ''#EXT-X-STREAM-INF:BANDWIDTH=1378,RESOLUTION=640x360,NAME=360p'',
            ''quality-360p.m3u8'']
   \<and> map spec_BANDWIDTH qualityLevelPresets = [15456000, 10315200, 5208000, 2654400, 1377600]"
  by (simp add: new_VideoInfo_def convertToSegments_example qualityLevelPresets_def Math_round_def Let_def
        getMasterManifest_lines_def streamInfLine_def Number_toString_def decimal.simps digitChar_def
        spec_BANDWIDTH_def)

theorem masterManifest_bandwidth_witness:
  "\<exists>v. new_VideoInfo ''a.mp4'' ''/cache/a'' 31 1920 1080 [3, 6, 20] = Inr v
       \<and> getMasterManifest_lines v ! 1
            = ''#EXT-X-STREAM-INF:BANDWIDTH=15456,RESOLUTION=1920x1080,NAME=1080p-extra''
       \<and> getMasterManifest_lines v ! 2 = ''quality-1080p-extra.m3u8''"
  using masterManifest_bandwidth
  by (cases "new_VideoInfo ''a.mp4'' ''/cache/a'' 31 1920 1080 [3, 6, 20]") auto

lemma getBackend_new_client_no_removeClient:
  "map_of (clientTracker h) clientId = None \<Longrightarrow>
     removeClientCalls (snd (getBackend h clientId file qualityLevel newLookupPromise)) = removeClientCalls h"
  by (simp add: getBackend_def Let_def split: list.splits)

lemma getBackend_third_client_throws:
  "getBackend \<lparr>maxClientNumber = 1,
               clientTracker = [(''first'', Resolves \<lparr>ref_relPath = ''a.mp4'', ref_presetName = ''720p''\<rparr>),
                                (''second'', Resolves \<lparr>ref_relPath = ''b.mp4'', ref_presetName = ''720p''\<rparr>)],
               removeClientCalls = []\<rparr>
     ''third'' ''b.mp4'' ''720p'' (Resolves \<lparr>ref_relPath = ''b.mp4'', ref_presetName = ''720p''\<rparr>)
   = (Inl (TypeError ''victimValue.removeClient is not a function''),
      \<lparr>maxClientNumber = 1,
       clientTracker = [(''second'', Resolves \<lparr>ref_relPath = ''b.mp4'', ref_presetName = ''720p''\<rparr>)],
       removeClientCalls = []\<rparr>)"
  by (simp add: getBackend_def Let_def)

text \<open>
  Claim C2 says that a new client arriving at a full tracker evicts the oldest entry, whose
  backend is told to remove the evicted client. With \<open>maxClientNumber = 1\<close> and one client
  tracked, a second client is simply added: the comparison is \<^verbatim>\<open>size > maxClientNumber\<close>, so
  nothing is evicted and no backend receives \<open>removeClient\<close>. (When the tracker does hold more
  than the maximum, the eviction calls \<open>removeClient\<close> on the promise instead of the backend,
  with the new client's id, and throws.)
\<close>

theorem getBackend_second_client_not_evicting:
  "getBackend \<lparr>maxClientNumber = 1,
               clientTracker = [(''first'', Resolves \<lparr>ref_relPath = ''a.mp4'', ref_presetName = ''720p''\<rparr>)],
               removeClientCalls = []\<rparr>
     ''second'' ''b.mp4'' ''720p'' (Resolves \<lparr>ref_relPath = ''b.mp4'', ref_presetName = ''720p''\<rparr>)
   = (Inr (Resolves \<lparr>ref_relPath = ''b.mp4'', ref_presetName = ''720p''\<rparr>),
      \<lparr>maxClientNumber = 1,
       clientTracker = [(''first'', Resolves \<lparr>ref_relPath = ''a.mp4'', ref_presetName = ''720p''\<rparr>),
                        (''second'', Resolves \<lparr>ref_relPath = ''b.mp4'', ref_presetName = ''720p''\<rparr>)],
       removeClientCalls = []\<rparr>)"
  by (simp add: getBackend_def Let_def)

theorem getBackend_second_client_witness:
  "map fst (clientTracker (snd (getBackend
      \<lparr>maxClientNumber = 1,
       clientTracker = [(''first'', Resolves \<lparr>ref_relPath = ''a.mp4'', ref_presetName = ''720p''\<rparr>)],
       removeClientCalls = []\<rparr>
      ''second'' ''b.mp4'' ''720p'' (Resolves \<lparr>ref_relPath = ''b.mp4'', ref_presetName = ''720p''\<rparr>))))
     = [''first'', ''second'']
   \<and> removeClientCalls (snd (getBackend
      \<lparr>maxClientNumber = 1,
       clientTracker = [(''first'', Resolves \<lparr>ref_relPath = ''a.mp4'', ref_presetName = ''720p''\<rparr>)],
       removeClientCalls = []\<rparr>
      ''second'' ''b.mp4'' ''720p'' (Resolves \<lparr>ref_relPath = ''b.mp4'', ref_presetName = ''720p''\<rparr>)))
     = []"
  unfolding getBackend_second_client_not_evicting by simp

section \<open>LRU map: proofs\<close>

lemma settled_started: "settled st \<Longrightarrow> started st"
  by (cases st) (simp_all add: started_def)

text \<open>Everything of a key before a promise whose wait is over is settled.\<close>

lemma before_settled:
  assumes W: "invW ps" and K: "invK ps" and p: "p < length ps"
    and w: "waitsOn (snd (ps ! p)) = Some w" and sw: "settled (snd (ps ! w))"
    and q: "q < p" "fst (ps ! q) = fst (ps ! p)"
  shows "settled (snd (ps ! q))"
proof -
  from W p w have wp: "w < p" and kw: "fst (ps ! w) = fst (ps ! p)"
    and btw: "\<And>q. w < q \<Longrightarrow> q < p \<Longrightarrow> fst (ps ! q) = fst (ps ! p) \<Longrightarrow> settled (snd (ps ! q))"
    unfolding invW_def by blast+
  consider "q < w" | "q = w" | "w < q" by linarith
  then show ?thesis
  proof cases
    case 1
    have "w < length ps" using wp p by simp
    with K 1 kw q(2) settled_started [OF sw] show ?thesis unfolding invK_def by metis
  next
    case 2 then show ?thesis using sw by simp
  next
    case 3 then show ?thesis using btw q by blast
  qed
qed

text \<open>Changing the state of one promise.\<close>

lemma nth_update_key: "q < length ps \<Longrightarrow> fst (ps[p := (fst (ps ! p), s)] ! q) = fst (ps ! q)"
  by (cases "p = q") simp_all

lemma inv_setState:
  assumes inv: "lruInv3 ps cm dm" and p: "p < length ps"
    and mono: "settled (snd (ps ! p)) \<Longrightarrow> settled s'"
    and wait: "waitsOn s' = None \<or> waitsOn s' = waitsOn (snd (ps ! p))"
    and start: "started s' \<Longrightarrow> \<not> started (snd (ps ! p)) \<Longrightarrow>
         (\<forall>q. q < p \<and> fst (ps ! q) = fst (ps ! p) \<longrightarrow> settled (snd (ps ! q)))"
  shows "lruInv3 (ps[p := (fst (ps ! p), s')]) cm dm"
proof -
  let ?ps = "ps[p := (fst (ps ! p), s')]"
  from inv have W: "invW ps" and K: "invK ps" and T: "invT ps cm dm" and C: "invD ps cm" and D: "invD ps dm"
    unfolding lruInv3_def by blast+
  have key: "\<And>q. q < length ps \<Longrightarrow> fst (?ps ! q) = fst (ps ! q)"
    by (rule nth_update_key)
  have st: "\<And>q. q < length ps \<Longrightarrow> q \<noteq> p \<Longrightarrow> snd (?ps ! q) = snd (ps ! q)"
    by simp
  have stp: "snd (?ps ! p) = s'" using p by simp
  have set: "\<And>q. q < length ps \<Longrightarrow> settled (snd (ps ! q)) \<Longrightarrow> settled (snd (?ps ! q))"
  proof -
    fix q assume "q < length ps" "settled (snd (ps ! q))"
    then show "settled (snd (?ps ! q))" using mono by (cases "p = q") simp_all
  qed
  have len: "length ?ps = length ps" by simp
  have W': "invW ?ps"
    unfolding invW_def len
  proof (intro allI impI, elim conjE)
    fix r w assume r: "r < length ps" and w: "waitsOn (snd (?ps ! r)) = Some w"
    have w0: "waitsOn (snd (ps ! r)) = Some w"
    proof (cases "r = p")
      case True then show ?thesis using w wait stp by auto
    next
      case False then show ?thesis using w st r by simp
    qed
    from W r w0 have a: "w < r" "fst (ps ! w) = fst (ps ! r)"
      and b: "\<And>q. w < q \<Longrightarrow> q < r \<Longrightarrow> fst (ps ! q) = fst (ps ! r) \<Longrightarrow> settled (snd (ps ! q))"
      unfolding invW_def by blast+
    have wl: "w < length ps" using a(1) r by simp
    have c: "settled (snd (?ps ! q))" if "w < q" "q < r" "fst (?ps ! q) = fst (?ps ! r)" for q
    proof -
      have ql: "q < length ps" using that(2) r by simp
      then have "fst (ps ! q) = fst (ps ! r)" using that(3) key r by simp
      then show ?thesis using b that(1,2) set ql by blast
    qed
    show "w < r \<and> fst (?ps ! w) = fst (?ps ! r)
        \<and> (\<forall>q. w < q \<and> q < r \<and> fst (?ps ! q) = fst (?ps ! r) \<longrightarrow> settled (snd (?ps ! q)))"
    proof (intro conjI allI impI)
      show "w < r" by (rule a(1))
      show "fst (?ps ! w) = fst (?ps ! r)" using key [OF wl] key [OF r] a(2) by simp
      fix q assume "w < q \<and> q < r \<and> fst (?ps ! q) = fst (?ps ! r)"
      then show "settled (snd (?ps ! q))" using c by blast
    qed
  qed
  have K': "invK ?ps"
    unfolding invK_def len
  proof (intro allI impI, elim conjE)
    fix a b assume ab: "a < b" "b < length ps" and k: "fst (?ps ! a) = fst (?ps ! b)"
      and sb: "started (snd (?ps ! b))"
    have a: "a < length ps" using ab by simp
    have k0: "fst (ps ! a) = fst (ps ! b)" using k key a ab by simp
    show "settled (snd (?ps ! a))"
    proof (cases "b = p")
      case True
      show ?thesis
      proof (cases "started (snd (ps ! p))")
        case True
        with K ab k0 \<open>b = p\<close> have "settled (snd (ps ! a))" unfolding invK_def by blast
        then show ?thesis using set a by blast
      next
        case False
        with start sb stp \<open>b = p\<close> ab k0 have "settled (snd (ps ! a))" by auto
        then show ?thesis using set a by blast
      qed
    next
      case False
      then have "started (snd (ps ! b))" using sb st ab by simp
      with K ab k0 have "settled (snd (ps ! a))" unfolding invK_def by blast
      then show ?thesis using set a by blast
    qed
  qed
  have T': "invT ?ps cm dm"
    unfolding invT_def len
  proof
    fix k
    show "case tailOf cm dm k of
       Some t \<Rightarrow> \<forall>q. t < q \<and> q < length ps \<and> fst (?ps ! q) = k \<longrightarrow> settled (snd (?ps ! q))
     | None \<Rightarrow> \<forall>q. q < length ps \<and> fst (?ps ! q) = k \<longrightarrow> settled (snd (?ps ! q))"
      using T [unfolded invT_def, rule_format, of k] key set
      by (auto split: option.splits)
  qed
  have C': "invD ?ps cm" using C key unfolding invD_def by auto
  have D': "invD ?ps dm" using D key unfolding invD_def by auto
  show ?thesis unfolding lruInv3_def using W' K' T' C' D' by blast
qed


text \<open>Creating a promise at the end of a key's chain.\<close>

lemma inv_append:
  assumes inv: "lruInv3 ps cm dm"
    and wait: "\<And>w. waitsOn s = Some w \<Longrightarrow> w < length ps \<and> fst (ps ! w) = k
         \<and> (\<forall>q. w < q \<and> q < length ps \<and> fst (ps ! q) = k \<longrightarrow> settled (snd (ps ! q)))"
    and start: "started s \<Longrightarrow> (\<forall>q. q < length ps \<and> fst (ps ! q) = k \<longrightarrow> settled (snd (ps ! q)))"
    and tail: "tailOf cm' dm' k = Some (length ps)"
    and others: "\<And>k'. k' \<noteq> k \<Longrightarrow> tailOf cm' dm' k' = tailOf cm dm k'"
    and cm': "\<And>k' c. cm' k' = Some c \<Longrightarrow> (c = length ps \<and> k' = k) \<or> cm k' = Some c"
    and dm': "\<And>k' d. dm' k' = Some d \<Longrightarrow> (d = length ps \<and> k' = k) \<or> dm k' = Some d"
  shows "lruInv3 (ps @ [(k, s)]) cm' dm'"
proof -
  let ?ps = "ps @ [(k, s)]"
  from inv have W: "invW ps" and K: "invK ps" and T: "invT ps cm dm" and C: "invD ps cm" and D: "invD ps dm"
    unfolding lruInv3_def by blast+
  have old: "\<And>q. q < length ps \<Longrightarrow> ?ps ! q = ps ! q" by (simp add: nth_append)
  have new: "?ps ! length ps = (k, s)" by simp
  have len: "length ?ps = Suc (length ps)" by simp
  have split: "\<And>q. q < Suc (length ps) \<Longrightarrow> q < length ps \<or> q = length ps" by linarith
  have W': "invW ?ps"
    unfolding invW_def len
  proof (intro allI impI, elim conjE)
    fix r w assume r: "r < Suc (length ps)" and w: "waitsOn (snd (?ps ! r)) = Some w"
    show "w < r \<and> fst (?ps ! w) = fst (?ps ! r)
        \<and> (\<forall>q. w < q \<and> q < r \<and> fst (?ps ! q) = fst (?ps ! r) \<longrightarrow> settled (snd (?ps ! q)))"
    proof (cases "r = length ps")
      case True
      then have "waitsOn s = Some w" using w by simp
      from wait [OF this] have a: "w < length ps" "fst (ps ! w) = k"
        and b: "\<forall>q. w < q \<and> q < length ps \<and> fst (ps ! q) = k \<longrightarrow> settled (snd (ps ! q))"
        by blast+
      show ?thesis
      proof (intro conjI allI impI)
        show "w < r" using a(1) True by simp
        show "fst (?ps ! w) = fst (?ps ! r)" using a True by (simp add: old)
        fix q assume q: "w < q \<and> q < r \<and> fst (?ps ! q) = fst (?ps ! r)"
        then have ql: "q < length ps" using True by simp
        have "fst (ps ! q) = k" using q True old [OF ql] by simp
        then show "settled (snd (?ps ! q))" using q b ql old [OF ql] by simp
      qed
    next
      case False
      then have rl: "r < length ps" using r by simp
      then have w0: "waitsOn (snd (ps ! r)) = Some w" using w by (simp add: old)
      from W rl w0 have a: "w < r" "fst (ps ! w) = fst (ps ! r)"
        and b: "\<forall>q. w < q \<and> q < r \<and> fst (ps ! q) = fst (ps ! r) \<longrightarrow> settled (snd (ps ! q))"
        unfolding invW_def by blast+
      have wl: "w < length ps" using a(1) rl by simp
      show ?thesis
      proof (intro conjI allI impI)
        show "w < r" by (rule a(1))
        show "fst (?ps ! w) = fst (?ps ! r)" using a(2) by (simp add: old wl rl)
        fix q assume q: "w < q \<and> q < r \<and> fst (?ps ! q) = fst (?ps ! r)"
        then have ql: "q < length ps" using rl by simp
        show "settled (snd (?ps ! q))" using q b old [OF ql] old [OF rl] by simp
      qed
    qed
  qed
  have K': "invK ?ps"
    unfolding invK_def len
  proof (intro allI impI, elim conjE)
    fix a b assume ab: "a < b" "b < Suc (length ps)" and k: "fst (?ps ! a) = fst (?ps ! b)"
      and sb: "started (snd (?ps ! b))"
    show "settled (snd (?ps ! a))"
    proof (cases "b = length ps")
      case True
      then have al: "a < length ps" using ab by simp
      have "started s" using sb True by simp
      from start [OF this] k al True show ?thesis by (simp add: old)
    next
      case False
      then have bl: "b < length ps" using ab by simp
      then have al: "a < length ps" using ab by simp
      have k0: "fst (ps ! a) = fst (ps ! b)" using k old [OF al] old [OF bl] by simp
      have sb0: "started (snd (ps ! b))" using sb old [OF bl] by simp
      from K ab(1) bl k0 sb0 have "settled (snd (ps ! a))"
        unfolding invK_def by blast
      then show ?thesis using old [OF al] by simp
    qed
  qed
  have T': "invT ?ps cm' dm'"
    unfolding invT_def len
  proof
    fix k'
    show "case tailOf cm' dm' k' of
       Some t \<Rightarrow> \<forall>q. t < q \<and> q < Suc (length ps) \<and> fst (?ps ! q) = k' \<longrightarrow> settled (snd (?ps ! q))
     | None \<Rightarrow> \<forall>q. q < Suc (length ps) \<and> fst (?ps ! q) = k' \<longrightarrow> settled (snd (?ps ! q))"
    proof (cases "k' = k")
      case True
      have t: "tailOf cm' dm' k' = Some (length ps)" using tail True by simp
      have "settled (snd (?ps ! q))" if "length ps < q" "q < Suc (length ps)" for q
        using that by linarith
      then show ?thesis unfolding t by (simp only: option.case) blast
    next
      case False
      have neq: "\<And>q. q < Suc (length ps) \<Longrightarrow> fst (?ps ! q) = k' \<Longrightarrow> q < length ps"
      proof -
        fix q assume "q < Suc (length ps)" "fst (?ps ! q) = k'"
        then show "q < length ps" using False by (cases "q = length ps") auto
      qed
      have eq: "tailOf cm' dm' k' = tailOf cm dm k'" by (rule others [OF False])
      show ?thesis
      proof (cases "tailOf cm dm k'")
        case None
        from T [unfolded invT_def, rule_format, of k']
        have a: "\<forall>q. q < length ps \<and> fst (ps ! q) = k' \<longrightarrow> settled (snd (ps ! q))"
          unfolding None by (simp only: option.case)
        have "settled (snd (?ps ! q))" if "q < Suc (length ps)" "fst (?ps ! q) = k'" for q
        proof -
          have ql: "q < length ps" using neq that by blast
          then show ?thesis using a that(2) old [OF ql] by simp
        qed
        then show ?thesis unfolding eq None by (simp only: option.case) blast
      next
        case (Some t)
        from T [unfolded invT_def, rule_format, of k']
        have a: "\<forall>q. t < q \<and> q < length ps \<and> fst (ps ! q) = k' \<longrightarrow> settled (snd (ps ! q))"
          unfolding Some by (simp only: option.case)
        have "settled (snd (?ps ! q))" if "t < q" "q < Suc (length ps)" "fst (?ps ! q) = k'" for q
        proof -
          have ql: "q < length ps" using neq that by blast
          then show ?thesis using a that(1,3) old [OF ql] by simp
        qed
        then show ?thesis unfolding eq Some by (simp only: option.case) blast
      qed
    qed
  qed
  have C': "invD ?ps cm'"
    unfolding invD_def len
  proof (intro allI impI)
    fix k' c assume "cm' k' = Some c"
    from cm' [OF this] show "c < Suc (length ps) \<and> fst (?ps ! c) = k'"
    proof
      assume "c = length ps \<and> k' = k" then show ?thesis by simp
    next
      assume "cm k' = Some c"
      with C have "c < length ps \<and> fst (ps ! c) = k'" unfolding invD_def by blast
      then show ?thesis by (simp add: old)
    qed
  qed
  have D': "invD ?ps dm'"
    unfolding invD_def len
  proof (intro allI impI)
    fix k' d assume "dm' k' = Some d"
    from dm' [OF this] show "d < Suc (length ps) \<and> fst (?ps ! d) = k'"
    proof
      assume "d = length ps \<and> k' = k" then show ?thesis by simp
    next
      assume "dm k' = Some d"
      with D have "d < length ps \<and> fst (ps ! d) = k'" unfolding invD_def by blast
      then show ?thesis by (simp add: old)
    qed
  qed
  show ?thesis unfolding lruInv3_def using W' K' T' C' D' by blast
qed

lemma inv_insert:
  assumes inv: "lruInv3 ps cm dm" and miss: "cm k = None"
  shows "lruInv3 (ps @ [(k, case dm k of Some d \<Rightarrow> CtorWaiting d | None \<Rightarrow> CtorRunning)])
           (cm(k \<mapsto> length ps)) dm"
proof (rule inv_append [OF inv])
  from inv have T: "invT ps cm dm" and D: "invD ps dm" unfolding lruInv3_def by blast+
  have tl: "tailOf cm dm k = dm k" using miss by (simp add: tailOf_def)
  let ?s = "case dm k of Some d \<Rightarrow> CtorWaiting d | None \<Rightarrow> CtorRunning"
  show "waitsOn ?s = Some w \<Longrightarrow> w < length ps \<and> fst (ps ! w) = k
         \<and> (\<forall>q. w < q \<and> q < length ps \<and> fst (ps ! q) = k \<longrightarrow> settled (snd (ps ! q)))" for w
    using T [unfolded invT_def, rule_format, of k] D [unfolded invD_def, rule_format, of k w] tl
    by (auto split: option.splits)
  show "started ?s \<Longrightarrow> (\<forall>q. q < length ps \<and> fst (ps ! q) = k \<longrightarrow> settled (snd (ps ! q)))"
    using T [unfolded invT_def, rule_format, of k] tl
    by (auto split: option.splits simp: started_def)
  show "tailOf (cm(k \<mapsto> length ps)) dm k = Some (length ps)" by (simp add: tailOf_def)
  show "k' \<noteq> k \<Longrightarrow> tailOf (cm(k \<mapsto> length ps)) dm k' = tailOf cm dm k'" for k'
    by (simp add: tailOf_def)
  show "(cm(k \<mapsto> length ps)) k' = Some c \<Longrightarrow> (c = length ps \<and> k' = k) \<or> cm k' = Some c" for k' c
    by (auto split: if_splits)
  show "dm k' = Some d \<Longrightarrow> (d = length ps \<and> k' = k) \<or> dm k' = Some d" for k' d by simp
qed

lemma inv_delete:
  assumes inv: "lruInv3 ps cm dm" and hit: "cm k = Some c"
  shows "lruInv3 (ps @ [(k, DtorWaiting c)]) (cm(k := None)) (dm(k \<mapsto> length ps))"
proof (rule inv_append [OF inv])
  from inv have T: "invT ps cm dm" and C: "invD ps cm" unfolding lruInv3_def by blast+
  have tl: "tailOf cm dm k = Some c" using hit by (simp add: tailOf_def)
  show "waitsOn (DtorWaiting c) = Some w \<Longrightarrow> w < length ps \<and> fst (ps ! w) = k
         \<and> (\<forall>q. w < q \<and> q < length ps \<and> fst (ps ! q) = k \<longrightarrow> settled (snd (ps ! q)))" for w
    using T [unfolded invT_def, rule_format, of k] C [unfolded invD_def, rule_format, of k c] tl hit
    by auto
  show "started (DtorWaiting c) \<Longrightarrow> (\<forall>q. q < length ps \<and> fst (ps ! q) = k \<longrightarrow> settled (snd (ps ! q)))"
    by (simp add: started_def)
  show "tailOf (cm(k := None)) (dm(k \<mapsto> length ps)) k = Some (length ps)" by (simp add: tailOf_def)
  show "k' \<noteq> k \<Longrightarrow> tailOf (cm(k := None)) (dm(k \<mapsto> length ps)) k' = tailOf cm dm k'" for k'
    by (simp add: tailOf_def split: option.splits)
  show "(cm(k := None)) k' = Some c' \<Longrightarrow> (c' = length ps \<and> k' = k) \<or> cm k' = Some c'" for k' c'
    by (auto split: if_splits)
  show "(dm(k \<mapsto> length ps)) k' = Some d \<Longrightarrow> (d = length ps \<and> k' = k) \<or> dm k' = Some d" for k' d
    by (auto split: if_splits)
qed

lemma inv_catch:
  assumes inv: "lruInv3 ps cm dm" and p: "p < length ps" and rej: "settled (snd (ps ! p))"
    and hit: "cm (fst (ps ! p)) = Some p"
  shows "lruInv3 ps (cm(fst (ps ! p) := None)) dm"
proof -
  let ?k = "fst (ps ! p)"
  from inv have W: "invW ps" and K: "invK ps" and T: "invT ps cm dm" and C: "invD ps cm" and D: "invD ps dm"
    unfolding lruInv3_def by blast+
  have tl: "tailOf cm dm ?k = Some p" using hit by (simp add: tailOf_def)
  have all: "settled (snd (ps ! q))" if "q < length ps" "fst (ps ! q) = ?k" for q
  proof -
    consider "q < p" | "q = p" | "p < q" by linarith
    then show ?thesis
    proof cases
      case 1
      with K p that(2) settled_started [OF rej] show ?thesis unfolding invK_def by blast
    next
      case 2 then show ?thesis using rej by simp
    next
      case 3
      with T [unfolded invT_def, rule_format, of ?k] tl that show ?thesis by simp
    qed
  qed
  have T': "invT ps (cm(?k := None)) dm"
    unfolding invT_def
  proof
    fix k
    show "case tailOf (cm(?k := None)) dm k of
       Some t \<Rightarrow> \<forall>q. t < q \<and> q < length ps \<and> fst (ps ! q) = k \<longrightarrow> settled (snd (ps ! q))
     | None \<Rightarrow> \<forall>q. q < length ps \<and> fst (ps ! q) = k \<longrightarrow> settled (snd (ps ! q))"
    proof (cases "k = ?k")
      case True
      then show ?thesis using all by (auto split: option.splits)
    next
      case False
      then have "tailOf (cm(?k := None)) dm k = tailOf cm dm k" by (simp add: tailOf_def)
      then show ?thesis using T [unfolded invT_def, rule_format, of k] by simp
    qed
  qed
  have C': "invD ps (cm(?k := None))" using C unfolding invD_def by (auto split: if_splits)
  show ?thesis unfolding lruInv3_def using W K T' C' D by blast
qed


text \<open>The operations of the map keep the invariant.\<close>

lemma lruInv_delete: "lruInv m \<Longrightarrow> lruInv (snd (lru_delete k m))"
proof (cases "map_of (cache m) k")
  case None
  assume "lruInv m"
  then show ?thesis using None by (simp add: lru_delete_def)
next
  case (Some c)
  assume "lruInv m"
  then have "lruInv3 (promises m @ [(k, DtorWaiting c)]) ((map_of (cache m))(k := None))
      ((map_of (destructions m))(k \<mapsto> length (promises m)))"
    unfolding lruInv_def using Some by (rule inv_delete)
  then show ?thesis using Some
    by (simp add: lru_delete_def lruInv_def Let_def delete_conv' update_conv')
qed

lemma lruInv_insert:
  assumes "lruInv m" "map_of (cache m) k = None"
  shows "lruInv (m\<lparr>promises := promises m @ [(k, case map_of (destructions m) k of
                                                    Some d \<Rightarrow> CtorWaiting d | None \<Rightarrow> CtorRunning)],
                    cache := AList.update k (length (promises m)) (cache m)\<rparr>)"
  using inv_insert [OF assms(1) [unfolded lruInv_def] assms(2)]
  by (simp add: lruInv_def update_conv')

lemma lru_get_miss:
  assumes miss: "map_of (cache m) k = None"
  shows "snd (lru_get k m) =
     (let m' = m\<lparr>promises := promises m @ [(k, case map_of (destructions m) k of
                                                    Some d \<Rightarrow> CtorWaiting d | None \<Rightarrow> CtorRunning)],
                cache := AList.update k (length (promises m)) (cache m)\<rparr>
      in if length (cache m) \<ge> cacheSize m
         then (case cache m of [] \<Rightarrow> m' | (first, _) # _ \<Rightarrow> snd (lru_delete first m'))
         else m')"
proof (cases "length (cache m) \<ge> cacheSize m")
  case False
  then show ?thesis using miss by (simp add: lru_get_def lru_set_def Let_def)
next
  case True
  show ?thesis
  proof (cases "cache m")
    case Nil
    then show ?thesis using miss True by (simp add: lru_get_def lru_set_def Let_def)
  next
    case (Cons fc rest)
    obtain first c where fc: "fc = (first, c)" by (cases fc)
    have ne: "first \<noteq> k" using miss Cons fc by auto
    have notin: "k \<notin> fst ` set rest" using miss Cons fc ne by (auto simp: map_of_eq_None_iff split: if_splits)
    have notin': "k \<notin> fst ` set (AList.delete first rest)"
      using notin by (auto simp: AList.delete_eq)
    have upd1: "\<And>v. AList.update k v rest = rest @ [(k, v)]"
      using notin by (rule update_fresh)
    have upd2: "\<And>v. AList.update k v (filter (\<lambda>(k', _). first \<noteq> k') rest)
                  = filter (\<lambda>(k', _). first \<noteq> k') rest @ [(k, v)]"
      using notin' unfolding AList.delete_eq by (rule update_fresh)
    show ?thesis using miss True Cons fc ne
      by (simp add: lru_get_def lru_set_def lru_delete_def Let_def upd1 upd2 AList.delete_eq)
  qed
qed


lemma lruInv_get: "lruInv m \<Longrightarrow> lruInv (snd (lru_get k m))"
proof (cases "map_of (cache m) k")
  case (Some info)
  assume "lruInv m"
  moreover have "(map_of (cache m))(k \<mapsto> info) = map_of (cache m)" using Some by (rule map_upd_triv)
  ultimately show ?thesis using Some
    by (simp add: lru_get_def lruInv_def update_conv' delete_conv')
next
  case None
  assume inv: "lruInv m"
  define m' where "m' = m\<lparr>promises := promises m @ [(k, case map_of (destructions m) k of
                                                    Some d \<Rightarrow> CtorWaiting d | None \<Rightarrow> CtorRunning)],
                cache := AList.update k (length (promises m)) (cache m)\<rparr>"
  have eq: "snd (lru_get k m) =
      (if length (cache m) \<ge> cacheSize m
       then (case cache m of [] \<Rightarrow> m' | (first, _) # _ \<Rightarrow> snd (lru_delete first m'))
       else m')"
    using lru_get_miss [OF None] unfolding m'_def Let_def .
  have a: "lruInv m'" unfolding m'_def by (rule lruInv_insert [OF inv None])
  have b: "lruInv (snd (lru_delete first m'))" for first by (rule lruInv_delete [OF a])
  show ?thesis unfolding eq using a b by (auto split: list.splits)
qed

lemma lruInv_finish: "lruInv m \<Longrightarrow> lruInv (lru_finish p outcome m)"
proof -
  assume inv: "lruInv m"
  have "lruInv (setState p s' m)"
    if "p < length (promises m)" "started (snd (promises m ! p))" "\<not> settled (snd (promises m ! p))"
       "settled s'" for s'
    unfolding lruInv_def setState_def using that
    by (simp) (rule inv_setState [OF inv [unfolded lruInv_def]], auto simp: started_def dest: settled_started [unfolded started_def])
  then show ?thesis
    by (auto simp: lru_finish_def inv started_def split: pstate.splits option.splits)
qed

lemma lruInv_react: "lruInv m \<Longrightarrow> lruInv (lru_react p m)"
proof -
  assume inv: "lruInv m"
  then have inv3: "lruInv3 (promises m) (map_of (cache m)) (map_of (destructions m))"
    and W: "invW (promises m)" and K: "invK (promises m)"
    unfolding lruInv_def lruInv3_def by blast+
  have go: "lruInv (setState p s' m)"
    if p: "p < length (promises m)" and w: "waitsOn (snd (promises m ! p)) = Some w"
      and sw: "settled (snd (promises m ! w))" and s': "waitsOn s' = None" for s' w
  proof -
    have ns: "\<not> settled (snd (promises m ! p))" using w by (cases "snd (promises m ! p)") auto
    have "lruInv3 ((promises m)[p := (fst (promises m ! p), s')]) (map_of (cache m)) (map_of (destructions m))"
    proof (rule inv_setState [OF inv3 p])
      show "settled (snd (promises m ! p)) \<Longrightarrow> settled s'" using ns by simp
      show "waitsOn s' = None \<or> waitsOn s' = waitsOn (snd (promises m ! p))" using s' by simp
      show "\<forall>q. q < p \<and> fst (promises m ! q) = fst (promises m ! p) \<longrightarrow> settled (snd (promises m ! q))"
        using before_settled [OF W K p w sw] by blast
    qed
    then show ?thesis by (simp add: lruInv_def setState_def)
  qed
  show ?thesis
  proof (cases "p < length (promises m)")
    case False
    then show ?thesis using inv by (simp add: lru_react_def)
  next
    case True
    show ?thesis
    proof (cases "snd (promises m ! p)")
      case (CtorWaiting d)
      then show ?thesis using inv True go [OF True, of d CtorRunning]
        by (simp add: lru_react_def)
    next
      case (DtorWaiting c)
      then show ?thesis using inv True go [OF True, of c "DtorRunning v" for v] go [OF True, of c DtorRejected]
        by (simp add: lru_react_def split: pstate.splits)
    qed (use inv True in \<open>simp_all add: lru_react_def\<close>)
  qed
qed

lemma lruInv_catch: "lruInv m \<Longrightarrow> lruInv (lru_catch p m)"
proof -
  assume inv: "lruInv m"
  show ?thesis
  proof (cases "p < length (promises m) \<and> snd (promises m ! p) = CtorRejected
         \<and> map_of (cache m) (fst (promises m ! p)) = Some p")
    case False
    then show ?thesis using inv by (auto simp: lru_catch_def)
  next
    case True
    then have "lruInv3 (promises m) ((map_of (cache m))(fst (promises m ! p) := None)) (map_of (destructions m))"
      using inv_catch [OF inv [unfolded lruInv_def], of p] by simp
    then show ?thesis using True by (simp add: lru_catch_def lruInv_def delete_conv')
  qed
qed

lemma lruInv_step: "lruInv m \<Longrightarrow> lruInv (lru_step m e)"
  by (cases e) (simp_all add: lruInv_get lruInv_delete lruInv_finish lruInv_react lruInv_catch)

lemma lruInv_new: "lruInv (new_LruCacheMapForAsync n)"
  by (simp add: lruInv_def lruInv3_def new_LruCacheMapForAsync_def invW_def invK_def invT_def invD_def tailOf_def)

lemma lruInv_foldl: "lruInv m \<Longrightarrow> lruInv (foldl lru_step m events)"
  by (induction events arbitrary: m) (simp_all add: lruInv_step)

lemma lruInv_run: "lruInv (lru_run n events)"
  unfolding lru_run_def by (rule lruInv_foldl [OF lruInv_new])



lemma filter_at_most_one:
  assumes "\<And>i j. i < j \<Longrightarrow> j < length xs \<Longrightarrow> P (xs ! i) \<Longrightarrow> P (xs ! j) \<Longrightarrow> False"
  shows "length (filter P xs) \<le> 1"
  using assms
proof (induction xs)
  case Nil
  then show ?case by simp
next
  case (Cons x xs)
  have tl: "length (filter P xs) \<le> 1"
  proof (rule Cons.IH)
    fix i j assume "i < j" "j < length xs" "P (xs ! i)" "P (xs ! j)"
    then show False using Cons.prems [of "Suc i" "Suc j"] by simp
  qed
  show ?case
  proof (cases "P x")
    case False
    then show ?thesis using tl by simp
  next
    case True
    have "filter P xs = []"
    proof (rule ccontr)
      assume "filter P xs \<noteq> []"
      then have "\<exists>y\<in>set xs. P y" by (simp add: filter_empty_conv)
      then obtain y where "y \<in> set xs" "P y" by blast
      then obtain j where "j < length xs" "xs ! j = y" by (auto simp: in_set_conv_nth)
      then show False using Cons.prems [of 0 "Suc j"] True \<open>P y\<close> by simp
    qed
    then show ?thesis using True by simp
  qed
qed

lemma running_unsettled: "ctorRunning st \<or> dtorRunning st \<Longrightarrow> started st \<and> \<not> settled st"
  by (cases st) (simp_all add: started_def)

lemma lruInv_one_running:
  assumes R: "\<And>st. R st \<Longrightarrow> ctorRunning st \<or> dtorRunning st" and inv: "lruInv m"
  shows "length (filter (\<lambda>(k, st). k = key \<and> R st) (promises m)) \<le> 1"
proof (rule filter_at_most_one)
  fix i j
  assume ij: "i < j" "j < length (promises m)"
    and i: "case promises m ! i of (k, st) \<Rightarrow> k = key \<and> R st"
    and j: "case promises m ! j of (k, st) \<Rightarrow> k = key \<and> R st"
  from i have ki: "fst (promises m ! i) = key"
    and "R (snd (promises m ! i))"
    by (simp_all add: case_prod_beta)
  then have ri: "\<not> settled (snd (promises m ! i))" using running_unsettled R by blast
  from j have kj: "fst (promises m ! j) = key"
    and "R (snd (promises m ! j))"
    by (simp_all add: case_prod_beta)
  then have rj: "started (snd (promises m ! j))" using running_unsettled R by blast
  from inv have K: "invK (promises m)" unfolding lruInv_def lruInv3_def by blast
  have "settled (snd (promises m ! i))"
    by (rule K [unfolded invK_def, rule_format, of i j]) (simp add: ij ki kj rj)
  then show False using ri by simp
qed


text \<open>A step that starts a constructor changes no other promise, and the promise it starts
  is new or was waiting for a destruction.\<close>

lemma ctorStarts_frame:
  assumes "ctorStarts m (lru_step m e) p"
  shows "(\<forall>q. q < length (promises m) \<and> q \<noteq> p \<longrightarrow> promises (lru_step m e) ! q = promises m ! q)
       \<and> (p < length (promises m) \<longrightarrow> \<not> dtorRunning (snd (promises m ! p)))"
proof (cases e)
  case (Get k)
  show ?thesis
  proof (cases "map_of (cache m) k")
    case None
    show ?thesis using assms unfolding Get lru_step.simps lru_get_miss [OF None] Let_def
      by (auto simp: ctorStarts_def lru_delete_def Let_def nth_append split: list.splits option.splits if_splits)
  next
    case (Some a)
    then show ?thesis using assms unfolding Get by (auto simp: ctorStarts_def lru_get_def)
  qed
next
  case (Delete k)
  then show ?thesis using assms
    by (auto simp: ctorStarts_def lru_delete_def Let_def nth_append split: option.splits if_splits)
next
  case (Finish q outcome)
  then show ?thesis using assms
    by (auto simp: ctorStarts_def lru_finish_def setState_def nth_list_update split: pstate.splits option.splits if_splits)
next
  case (React q)
  then show ?thesis using assms
    by (auto simp: ctorStarts_def lru_react_def setState_def nth_list_update split: pstate.splits option.splits if_splits)
next
  case (Catch q)
  then show ?thesis using assms by (auto simp: ctorStarts_def lru_catch_def)
qed


lemma promises_grow: "length (promises m) \<le> length (promises (lru_step m e))"
proof (cases e)
  case (Get k)
  show ?thesis
  proof (cases "map_of (cache m) k")
    case None
    show ?thesis unfolding Get lru_step.simps lru_get_miss [OF None] Let_def
      by (auto simp: lru_delete_def Let_def split: list.splits option.splits)
  next
    case (Some a)
    then show ?thesis unfolding Get by (simp add: lru_get_def)
  qed
qed (auto simp: lru_delete_def lru_finish_def lru_react_def lru_catch_def setState_def Let_def
       split: option.splits pstate.splits)

lemma reuseEvents_run:
  "lru_run 20 reuseEvents =
     \<lparr>cacheSize = 20, cache = [(''Va.mp4'', 2)], destructions = [(''Va.mp4'', 1)],
      promises = [(''Va.mp4'', CtorResolved 7), (''Va.mp4'', DtorResolved), (''Va.mp4'', CtorWaiting 1)]\<rparr>"
  by (simp add: reuseEvents_def lru_run_def new_LruCacheMapForAsync_def lru_get_def lru_set_def
        lru_delete_def lru_finish_def lru_react_def setState_def Let_def)

text \<open>
  Claim C3. In every state the map can reach by calls of \<open>get\<close> and \<open>delete\<close>, by
  constructors and destructors finishing (well or badly) and by promise reactions running,
  in any order: for every key at most one constructor is in flight and at most one
  destructor is in flight (and never both at once); and whenever a step starts a constructor for a key, no
  destructor for that key is in flight and every earlier promise of the key, constructions
  and destructions alike, has settled.
\<close>

theorem lru_serialised:
  "length (ctorsRunningFor key (lru_run n events)) \<le> 1
   \<and> length (dtorsRunningFor key (lru_run n events)) \<le> 1
   \<and> length (runningFor key (lru_run n events)) \<le> 1
   \<and> (ctorStarts (lru_run n events) (lru_step (lru_run n events) e) p \<longrightarrow>
        dtorsRunningFor (fst (promises (lru_step (lru_run n events) e) ! p)) (lru_run n events) = []
        \<and> (\<forall>q. q < p \<and> fst (promises (lru_step (lru_run n events) e) ! q)
                        = fst (promises (lru_step (lru_run n events) e) ! p)
              \<longrightarrow> settled (snd (promises (lru_step (lru_run n events) e) ! q))))"
proof (intro conjI impI)
  define m where "m = lru_run n events"
  define m' where "m' = lru_step m e"
  have inv: "lruInv m" unfolding m_def by (rule lruInv_run)
  have inv': "lruInv m'" unfolding m'_def by (rule lruInv_step [OF inv])
  then have K': "invK (promises m')" unfolding lruInv_def lruInv3_def by blast
  show "length (ctorsRunningFor key (lru_run n events)) \<le> 1"
    unfolding ctorsRunningFor_def by (rule lruInv_one_running [OF _ lruInv_run]) simp
  show "length (dtorsRunningFor key (lru_run n events)) \<le> 1"
    unfolding dtorsRunningFor_def by (rule lruInv_one_running [OF _ lruInv_run]) simp
  show "length (runningFor key (lru_run n events)) \<le> 1"
    unfolding runningFor_def
    by (rule lruInv_one_running [OF _ lruInv_run, where R = "\<lambda>st. ctorRunning st \<or> dtorRunning st"]) simp
  assume "ctorStarts (lru_run n events) (lru_step (lru_run n events) e) p"
  then have cs: "ctorStarts m m' p" by (simp add: m_def m'_def)
  then have p: "p < length (promises m')" and rp: "ctorRunning (snd (promises m' ! p))"
    by (simp_all add: ctorStarts_def)
  have sp: "started (snd (promises m' ! p))" and up: "\<not> settled (snd (promises m' ! p))"
    using running_unsettled rp by blast+
  from ctorStarts_frame [OF cs [unfolded m'_def]]
  have frame: "\<And>q. q < length (promises m) \<Longrightarrow> q \<noteq> p \<Longrightarrow> promises m' ! q = promises m ! q"
    and notd: "p < length (promises m) \<Longrightarrow> \<not> dtorRunning (snd (promises m ! p))"
    unfolding m'_def by blast+
  have grow: "length (promises m) \<le> length (promises m')" unfolding m'_def by (rule promises_grow)
  have "dtorsRunningFor (fst (promises m' ! p)) m = []"
  proof (rule ccontr)
    assume "dtorsRunningFor (fst (promises m' ! p)) m \<noteq> []"
    then have "\<exists>x\<in>set (promises m). fst x = fst (promises m' ! p) \<and> dtorRunning (snd x)"
      unfolding dtorsRunningFor_def filter_empty_conv by (simp add: case_prod_beta)
    then obtain q where q: "q < length (promises m)" and kq: "fst (promises m ! q) = fst (promises m' ! p)"
      and dq: "dtorRunning (snd (promises m ! q))"
      by (auto simp: in_set_conv_nth)
    have qp: "q \<noteq> p" using notd q dq by blast
    have same: "promises m' ! q = promises m ! q" by (rule frame [OF q qp])
    have q': "q < length (promises m')" using q grow by simp
    have sq0: "started (snd (promises m ! q))" and uq0: "\<not> settled (snd (promises m ! q))"
      using running_unsettled dq by blast+
    then have sq: "started (snd (promises m' ! q))" and uq: "\<not> settled (snd (promises m' ! q))"
      using same by simp_all
    consider "q < p" | "p < q" using qp by linarith
    then show False
    proof cases
      case 1
      have "settled (snd (promises m' ! q))"
        by (rule K' [unfolded invK_def, rule_format, of q p]) (simp add: 1 p kq same sp)
      then show False using uq by simp
    next
      case 2
      have "settled (snd (promises m' ! p))"
        by (rule K' [unfolded invK_def, rule_format, of p q]) (simp add: 2 q' kq same sq0)
      then show False using up by simp
    qed
  qed
  then show "dtorsRunningFor (fst (promises (lru_step (lru_run n events) e) ! p)) (lru_run n events) = []"
    by (simp add: m_def m'_def)
  have "settled (snd (promises m' ! q))" if "q < p" "fst (promises m' ! q) = fst (promises m' ! p)" for q
    by (rule K' [unfolded invK_def, rule_format, of q p]) (simp add: that p sp)
  then show "\<forall>q. q < p \<and> fst (promises (lru_step (lru_run n events) e) ! q)
                        = fst (promises (lru_step (lru_run n events) e) ! p)
              \<longrightarrow> settled (snd (promises (lru_step (lru_run n events) e) ! q))"
    by (simp add: m_def m'_def)
qed

theorem lru_serialised_witness:
  "ctorStarts (lru_run 20 reuseEvents) (lru_step (lru_run 20 reuseEvents) (React 2)) 2
   \<and> length (ctorsRunningFor ''Va.mp4'' (lru_run 20 reuseEvents)) \<le> 1
   \<and> length (dtorsRunningFor ''Va.mp4'' (lru_run 20 reuseEvents)) \<le> 1
   \<and> length (runningFor ''Va.mp4'' (lru_run 20 reuseEvents)) \<le> 1
   \<and> dtorsRunningFor ''Va.mp4'' (lru_run 20 reuseEvents) = []
   \<and> settled (snd (promises (lru_step (lru_run 20 reuseEvents) (React 2)) ! 1))"
proof -
  have starts: "ctorStarts (lru_run 20 reuseEvents) (lru_step (lru_run 20 reuseEvents) (React 2)) 2"
    by (simp add: reuseEvents_run ctorStarts_def lru_react_def setState_def)
  have key: "fst (promises (lru_step (lru_run 20 reuseEvents) (React 2)) ! 2) = ''Va.mp4''"
    and key1: "fst (promises (lru_step (lru_run 20 reuseEvents) (React 2)) ! 1) = ''Va.mp4''"
    by (simp_all add: reuseEvents_run lru_react_def setState_def)
  from lru_serialised [of "''Va.mp4''" 20 reuseEvents "React 2" 2] starts
  show ?thesis unfolding key using key1 by auto
qed

lemma destructions_step:
  "map_of (destructions m) k \<noteq> None \<Longrightarrow> map_of (destructions (lru_step m e)) k \<noteq> None"
proof (cases e)
  case (Get key)
  assume a: "map_of (destructions m) k \<noteq> None"
  show ?thesis
  proof (cases "map_of (cache m) key")
    case None
    show ?thesis using a unfolding Get lru_step.simps lru_get_miss [OF None] Let_def
      by (auto simp: lru_delete_def Let_def update_conv' split: list.splits option.splits)
  next
    case (Some info)
    then show ?thesis using a unfolding Get by (simp add: lru_get_def)
  qed
qed (auto simp: lru_delete_def lru_finish_def lru_react_def lru_catch_def setState_def Let_def update_conv'
       split: option.splits pstate.splits)

text \<open>
  Claim C8 says that the entry in \<open>destructions\<close> is gone once the destruction has completed.
  The class never removes an entry from \<open>destructions\<close>; what holds is that \<open>delete\<close> of a
  cached key stores the destruction promise under the key, and that an entry for the key
  is there after every later sequence of steps, the completion of the destruction included.
\<close>

theorem destructions_never_cleared:
  "map_of (cache m) key = Some info \<Longrightarrow>
     map_of (destructions (snd (lru_delete key m))) key = Some (length (promises m))
     \<and> map_of (destructions (foldl lru_step (snd (lru_delete key m)) events)) key \<noteq> None"
proof -
  assume hit: "map_of (cache m) key = Some info"
  then have first: "map_of (destructions (snd (lru_delete key m))) key = Some (length (promises m))"
    by (simp add: lru_delete_def Let_def update_conv')
  have "map_of (destructions m') key \<noteq> None \<Longrightarrow> map_of (destructions (foldl lru_step m' events)) key \<noteq> None" for m'
  proof (induction events arbitrary: m')
    case Nil
    then show ?case by simp
  next
    case (Cons e events)
    from Cons.IH [OF destructions_step [OF Cons.prems]] show ?case by simp
  qed
  then show ?thesis using first by simp
qed


theorem destructions_never_cleared_witness:
  "map_of (cache (lru_run 20 [Get ''Va.mp4''] :: (string, nat) LruCacheMapForAsync)) ''Va.mp4'' = Some 0
   \<and> map_of (destructions (snd (lru_delete ''Va.mp4'' (lru_run 20 [Get ''Va.mp4''] :: (string, nat) LruCacheMapForAsync)))) ''Va.mp4'' = Some 1
   \<and> map_of (destructions (foldl lru_step (snd (lru_delete ''Va.mp4'' (lru_run 20 [Get ''Va.mp4''] :: (string, nat) LruCacheMapForAsync)))
                [Finish 0 (Some 7), React 1, Finish 1 (Some 7)])) ''Va.mp4'' \<noteq> None"
proof -
  have hit: "map_of (cache (lru_run 20 [Get ''Va.mp4''] :: (string, nat) LruCacheMapForAsync)) ''Va.mp4'' = Some 0"
    by (simp add: lru_run_def new_LruCacheMapForAsync_def lru_get_def lru_set_def Let_def)
  have len: "length (promises (lru_run 20 [Get ''Va.mp4''] :: (string, nat) LruCacheMapForAsync)) = 1"
    by (simp add: lru_run_def new_LruCacheMapForAsync_def lru_get_def lru_set_def Let_def)
  from destructions_never_cleared [OF hit, of "[Finish 0 (Some 7), React 1, Finish 1 (Some 7)]"] hit len
  show ?thesis by simp
qed

text \<open>The claim as worded fails: the destruction has resolved and its entry is still in the map.\<close>

theorem destructions_entry_counterexample:
  "snd (promises (lru_run 20 [Get ''Va.mp4'', Finish 0 (Some 7), Delete ''Va.mp4'', React 1, Finish 1 (Some 7)]
          :: (string, nat) LruCacheMapForAsync) ! 1) = DtorResolved
   \<and> map_of (destructions (lru_run 20 [Get ''Va.mp4'', Finish 0 (Some 7), Delete ''Va.mp4'', React 1, Finish 1 (Some 7)]
          :: (string, nat) LruCacheMapForAsync)) ''Va.mp4'' = Some 1"
  by (simp add: lru_run_def new_LruCacheMapForAsync_def lru_get_def lru_set_def
        lru_delete_def lru_finish_def lru_react_def setState_def Let_def)

end
